theory Spec2Isabelle
  imports Main "HOL-Library.Sublist" "HOL-Library.Multiset"
begin

section \<open>The replacement table of \<open>refactor_state.py\<close>\<close>

text \<open>
  The dictionary \<open>replacements\<close> is iterated with \<open>.items()\<close>, which in Python yields the
  pairs in insertion order; the keys of the literal are pairwise different. It is therefore
  an association list, in the order of the source text.
\<close>

definition replacements :: "(string \<times> string) list" where
  "replacements =
    [(''state.product_service'', ''state.commerce.product''),
     (''state.inventory_service'', ''state.commerce.inventory''),
     (''state.pricing_service'', ''state.commerce.pricing''),
     (''state.transaction_service'', ''state.commerce.transactions''),
     (''state.buylist_service'', ''state.commerce.buylist''),
     (''state.holds_service'', ''state.commerce.holds''),
     (''state.payment_service'', ''state.commerce.payments''),
     (''state.tax_service'', ''state.commerce.taxes''),
     (''state.returns_service'', ''state.commerce.returns''),
     (''state.trade_in_protection_service'', ''state.commerce.trade_in''),
     (''state.audit_service'', ''state.system.audit''),
     (''state.event_service'', ''state.system.events''),
     (''state.barcode_service'', ''state.system.barcode''),
     (''state.receipt_service'', ''state.system.receipts''),
     (''state.invoice_service'', ''state.system.invoices''),
     (''state.label_service'', ''state.system.labels''),
     (''state.cash_drawer_service'', ''state.system.cash_drawer''),
     (''state.printer_service'', ''state.system.printers''),
     (''state.catalog_lookup_service'', ''state.system.catalog''),
     (''state.serialized_inventory_service'', ''state.system.serialized''),
     (''state.location_service'', ''state.system.locations''),
     (''state.reporting_service'', ''state.system.reporting''),
     (''state.email_service'', ''state.system.email''),
     (''state.sms_service'', ''state.system.sms''),
     (''state.notification_scheduler'', ''state.system.notification_scheduler'')]"

section \<open>Python's \<open>str.replace\<close> and the substitution pass\<close>

text \<open>
  \<open>s.replace(old, new)\<close> scans \<open>s\<close> from the left; where \<open>old\<close> starts it emits \<open>new\<close> and
  resumes behind the occurrence (so occurrences are taken leftmost first and never overlap),
  elsewhere it copies one character. For the empty \<open>old\<close> Python puts \<open>new\<close> in front of
  every character and at the end.
\<close>

function replace :: "string \<Rightarrow> string \<Rightarrow> string \<Rightarrow> string" where
  "replace old new s =
     (if old = [] then new @ concat (map (\<lambda>c. c # new) s)
      else if s = [] then []
      else if prefix old s then new @ replace old new (drop (length old) s)
      else hd s # replace old new (tl s))"
  by pat_completeness auto
termination
  by (relation "measure (\<lambda>(old, new, s). length s)") auto

declare replace.simps [simp del]

text \<open>
  The loop of \<open>process_file\<close>:
  \<^verbatim>\<open>for old, new in replacements.items(): new_content = new_content.replace(old, new)\<close>
\<close>

definition subst_pass :: "(string \<times> string) list \<Rightarrow> string \<Rightarrow> string" where
  "subst_pass table content = fold (\<lambda>(old, new) acc. replace old new acc) table content"




section \<open>Files, console and the per-file procedure\<close>

text \<open>
  The file system is modelled at the level the script sees it through text-mode
  \<open>open(..., encoding='utf-8')\<close>: the content of a file is the text that reading it yields
  (decoded, newlines as the text layer presents them). A path that exists but cannot be
  opened, read or decoded (a directory, a file without permission, bytes that are not UTF-8)
  is \<open>Unreadable\<close> with the exception it raises. The field \<open>wfault\<close> says how a write to
  a path fails, if it does: \<open>open(..., 'w')\<close> raises and the file stays as it is, or the file
  is truncated and the write raises, leaving some partial content. \<open>missing\<close> is the
  exception that \<open>open\<close> raises for a path that does not exist (its message is the one of
  the operating system, with the path as Python quotes it). \<open>ops\<close> records every attempt
  to open a file, \<open>console\<close> every printed line.
\<close>

type_synonym path = string

datatype io_error = IOError (message: string)

datatype node = Text string | Unreadable io_error

datatype write_fault = OpenFails io_error | WriteFails io_error string

datatype fs_op = OpenRead path | OpenWrite path

record world =
  disk :: "path \<Rightarrow> node option"
  wfault :: "path \<Rightarrow> write_fault option"
  missing :: "path \<Rightarrow> io_error"
  listing :: "path \<Rightarrow> io_error + string list"
  console :: "string list"
  ops :: "fs_op list"

text \<open>
  The effect of a \<open>print\<close> that succeeds. That \<open>print\<close> can also raise is the subject of
  the section on a console that rejects lines below; the functions of this and the next
  section describe the runs in which every \<open>print\<close> succeeds.
\<close>

definition print_line :: "string \<Rightarrow> world \<Rightarrow> world" where
  "print_line line w = w\<lparr>console := console w @ [line]\<rparr>"

text \<open>\<^verbatim>\<open>with open(filepath, 'r', encoding='utf-8') as f: content = f.read()\<close>\<close>

definition read_text :: "path \<Rightarrow> world \<Rightarrow> (io_error + string) \<times> world" where
  "read_text p w =
     (let w' = w\<lparr>ops := ops w @ [OpenRead p]\<rparr>
      in case disk w p of
           None \<Rightarrow> (Inl (missing w p), w')
         | Some (Unreadable e) \<Rightarrow> (Inl e, w')
         | Some (Text content) \<Rightarrow> (Inr content, w'))"

text \<open>\<^verbatim>\<open>with open(filepath, 'w', encoding='utf-8') as f: f.write(new_content)\<close>\<close>

definition write_text :: "path \<Rightarrow> string \<Rightarrow> world \<Rightarrow> (io_error + unit) \<times> world" where
  "write_text p new_content w =
     (let w' = w\<lparr>ops := ops w @ [OpenWrite p]\<rparr>
      in case wfault w p of
           None \<Rightarrow> (Inr (), w'\<lparr>disk := (disk w)(p \<mapsto> Text new_content)\<rparr>)
         | Some (OpenFails e) \<Rightarrow> (Inl e, w')
         | Some (WriteFails e partial) \<Rightarrow> (Inl e, w'\<lparr>disk := (disk w)(p \<mapsto> Text partial)\<rparr>))"

text \<open>
  The body of the \<open>try\<close> block of \<open>process_file\<close>: \<open>Inl e\<close> is the exception \<open>e\<close> leaving
  the block, together with the world as the block left it.
\<close>

definition process_body :: "path \<Rightarrow> world \<Rightarrow> (io_error + unit) \<times> world" where
  "process_body filepath w =
     (case read_text filepath w of
        (Inl e, w1) \<Rightarrow> (Inl e, w1)
      | (Inr content, w1) \<Rightarrow>
          (let new_content = subst_pass replacements content
           in if content \<noteq> new_content then
                (case write_text filepath new_content w1 of
                   (Inl e, w2) \<Rightarrow> (Inl e, w2)
                 | (Inr u, w2) \<Rightarrow> (Inr (), print_line (''Updated '' @ filepath) w2))
              else (Inr (), print_line (''No changes in '' @ filepath) w1)))"

text \<open>\<open>process_file\<close>: the first \<open>print\<close>, the \<open>try\<close> block, and the handler \<open>except Exception as e\<close>.\<close>

definition process_file :: "path \<Rightarrow> world \<Rightarrow> world" where
  "process_file filepath w =
     (case process_body filepath (print_line (''Processing '' @ filepath @ ''...'') w) of
        (Inl e, w') \<Rightarrow> print_line (''Error processing '' @ filepath @ '': '' @ message e) w'
      | (Inr u, w') \<Rightarrow> w')"

section \<open>The target list and the driver loop\<close>

definition bslash :: char where
  "bslash = CHR 0x5C"

definition legacy_target :: path where
  "legacy_target = ''d:'' @ [bslash] @ ''Projects'' @ [bslash] @ ''VaultSync'' @ [bslash] @ ''src''
     @ [bslash] @ ''api'' @ [bslash] @ ''handlers_legacy.rs''"

definition handlers_dir :: path where
  "handlers_dir = ''d:'' @ [bslash] @ ''Projects'' @ [bslash] @ ''VaultSync'' @ [bslash] @ ''src''
     @ [bslash] @ ''api'' @ [bslash] @ ''handlers''"

text \<open>\<open>filename.endswith(suffix)\<close>\<close>

definition endswith :: "string \<Rightarrow> string \<Rightarrow> bool" where
  "endswith s suf = suffix suf s"

text \<open>
  \<open>os.path.join(a, b)\<close> for two components, with the separator \<open>sep\<close> of the platform the
  script runs on: a second component that starts with the separator replaces the first, a
  first component that is empty or ends with the separator gets no further one. The second
  component is a name as \<open>os.listdir\<close> returns it; on Windows such a name has no drive and
  no separator of either kind, and for these names \<open>ntpath.join\<close> and \<open>posixpath.join\<close>
  both compute this.
\<close>

definition os_path_join :: "string \<Rightarrow> path \<Rightarrow> string \<Rightarrow> path" where
  "os_path_join sep a b =
     (if prefix sep b then b
      else if a = [] \<or> suffix sep a then a @ b
      else a @ sep @ b)"

text \<open>
  The list \<open>targets\<close> after the loop over \<open>os.listdir(handlers_dir)\<close>; \<open>names\<close> is what
  \<open>os.listdir\<close> returned, in its order.
\<close>

definition build_targets :: "string \<Rightarrow> string list \<Rightarrow> path list" where
  "build_targets sep names =
     fold (\<lambda>filename targets.
             if endswith filename ''.rs'' then targets @ [os_path_join sep handlers_dir filename]
             else targets)
          names [legacy_target]"

definition os_path_exists :: "world \<Rightarrow> path \<Rightarrow> bool" where
  "os_path_exists w p \<longleftrightarrow> disk w p \<noteq> None"

definition visit :: "path \<Rightarrow> world \<Rightarrow> world" where
  "visit target w =
     (if os_path_exists w target then process_file target w
      else print_line (''File not found: '' @ target) w)"

definition run_targets :: "path list \<Rightarrow> world \<Rightarrow> world" where
  "run_targets targets w = fold visit targets w"

text \<open>
  The whole script. \<open>os.listdir\<close> is called outside every \<open>try\<close>: if it raises, the
  exception ends the run before any file is visited.
\<close>

definition main :: "string \<Rightarrow> world \<Rightarrow> io_error + world" where
  "main sep w =
     (case listing w handlers_dir of
        Inl e \<Rightarrow> Inl e
      | Inr names \<Rightarrow> Inr (run_targets (build_targets sep names) w))"

section \<open>A console that rejects lines\<close>

text \<open>
  \<open>print\<close> raises when standard output cannot encode the line or does not accept it (a
  console encoding without the characters of a file name, a closed pipe). \<open>stdout\<close> gives
  for every line the exception that printing it raises, \<open>None\<close> when it is printed. A result
  \<open>(Inl e, w)\<close> is the exception \<open>e\<close> propagating, in the world \<open>w\<close> reached so far.

  The \<open>print\<close> calls of lines 45 and 47 stand inside the \<open>try\<close> block, so their exception is
  caught by the handler; those of lines 33, 49 and 65 stand outside every \<open>try\<close>, so their
  exception leaves \<open>process_file\<close> or the loop and ends the run.
\<close>

type_synonym stdout = "string \<Rightarrow> io_error option"

definition print_checked :: "stdout \<Rightarrow> string \<Rightarrow> world \<Rightarrow> (io_error + unit) \<times> world" where
  "print_checked out line w =
     (case out line of None \<Rightarrow> (Inr (), print_line line w) | Some e \<Rightarrow> (Inl e, w))"

definition process_body_io :: "stdout \<Rightarrow> path \<Rightarrow> world \<Rightarrow> (io_error + unit) \<times> world" where
  "process_body_io out filepath w =
     (case read_text filepath w of
        (Inl e, w1) \<Rightarrow> (Inl e, w1)
      | (Inr content, w1) \<Rightarrow>
          (let new_content = subst_pass replacements content
           in if content \<noteq> new_content then
                (case write_text filepath new_content w1 of
                   (Inl e, w2) \<Rightarrow> (Inl e, w2)
                 | (Inr u, w2) \<Rightarrow> print_checked out (''Updated '' @ filepath) w2)
              else print_checked out (''No changes in '' @ filepath) w1))"

definition process_file_io :: "stdout \<Rightarrow> path \<Rightarrow> world \<Rightarrow> (io_error + unit) \<times> world" where
  "process_file_io out filepath w =
     (case print_checked out (''Processing '' @ filepath @ ''...'') w of
        (Inl e, w0) \<Rightarrow> (Inl e, w0)
      | (Inr u, w0) \<Rightarrow>
          (case process_body_io out filepath w0 of
             (Inl e, w') \<Rightarrow>
               print_checked out (''Error processing '' @ filepath @ '': '' @ message e) w'
           | (Inr u', w') \<Rightarrow> (Inr (), w')))"

definition visit_io :: "stdout \<Rightarrow> path \<Rightarrow> world \<Rightarrow> (io_error + unit) \<times> world" where
  "visit_io out target w =
     (if os_path_exists w target then process_file_io out target w
      else print_checked out (''File not found: '' @ target) w)"

fun run_io :: "stdout \<Rightarrow> path list \<Rightarrow> world \<Rightarrow> (io_error + unit) \<times> world" where
  "run_io out [] w = (Inr (), w)"
| "run_io out (target # targets) w =
     (case visit_io out target w of
        (Inl e, w') \<Rightarrow> (Inl e, w')
      | (Inr u, w') \<Rightarrow> run_io out targets w')"

definition main_io :: "string \<Rightarrow> stdout \<Rightarrow> world \<Rightarrow> (io_error + unit) \<times> world" where
  "main_io sep out w =
     (case listing w handlers_dir of
        Inl e \<Rightarrow> (Inl e, w)
      | Inr names \<Rightarrow> run_io out (build_targets sep names) w)"

text \<open>
  A console that encodes ASCII only, and a target whose name has a character outside
  ASCII (the byte \<open>0xE9\<close>).
\<close>

definition ascii_stdout :: stdout where
  "ascii_stdout line =
     (if list_all (\<lambda>c. of_char c < (128 :: nat)) line then None
      else Some (IOError ''codec cannot encode character''))"

definition accent_target :: path where
  "accent_target = ''caf'' @ [CHR 0xE9] @ ''.rs''"

section \<open>Rewriting all tokens in one scan\<close>

text \<open>
  The pass applies the pairs one after the other, each to the output of the one before.
  To reason about it, it is compared with a single scan \<open>rewrite_all\<close> that rewrites every
  old-token where it stands. The comparison needs the tokens to keep apart from each other:
  \<open>well_separated p T\<close> says that all tokens of the table \<open>T\<close> begin with \<open>p\<close>, that no old-token
  can overlap another old-token or a new-token, and that \<open>p\<close> does not start inside a
  new-token. What remains possible is that the end of a new-token is the beginning of \<open>p\<close>
  (\<open>tail_edges\<close>); \<open>cascade_free\<close> excludes the contents in which an old-token is followed
  by the text that would complete such an end to an old-token.
\<close>

definition compatible :: "string \<Rightarrow> string \<Rightarrow> bool" where
  "compatible x y \<longleftrightarrow> prefix x y \<or> prefix y x"

function rewrite_all :: "(string \<times> string) list \<Rightarrow> string \<Rightarrow> string" where
  "rewrite_all P s =
     (if s = [] then []
      else case find (\<lambda>(old, new). old \<noteq> [] \<and> prefix old s) P of
             None \<Rightarrow> hd s # rewrite_all P (tl s)
           | Some (old, new) \<Rightarrow> new @ rewrite_all P (drop (length old) s))"
  by pat_completeness auto
termination
  by (relation "measure (\<lambda>(P, s). length s)") (auto simp: find_Some_iff)

declare rewrite_all.simps [simp del]

fun apart :: "string list \<Rightarrow> bool" where
  "apart [] = True"
| "apart (x # xs) = (list_all (\<lambda>y. \<not> compatible x y) xs \<and> apart xs)"

definition quiet :: "string \<Rightarrow> string \<Rightarrow> bool" where
  "quiet p w \<longleftrightarrow> list_all (\<lambda>k. \<not> compatible (drop k w) p) [1..<length w]"

definition well_separated :: "string \<Rightarrow> (string \<times> string) list \<Rightarrow> bool" where
  "well_separated p T \<longleftrightarrow>
     p \<noteq> [] \<and>
     list_all (\<lambda>(old, new). prefix p old \<and> prefix p new) T \<and>
     apart (map fst T) \<and>
     list_all (\<lambda>(old, new). quiet p old) T \<and>
     list_all (\<lambda>(old, new). list_all (\<lambda>(old', new'). \<not> compatible old new') T) T \<and>
     list_all (\<lambda>(old, new). list_all (\<lambda>k. \<not> prefix p (drop k new)) [1..<length new]) T"

definition tail_edges :: "string \<Rightarrow> string \<Rightarrow> nat list" where
  "tail_edges p new = filter (\<lambda>k. prefix (drop k new) p) [1..<length new]"

definition cascade_free :: "string \<Rightarrow> (string \<times> string) list \<Rightarrow> string \<Rightarrow> bool" where
  "cascade_free p T s \<longleftrightarrow>
     list_all (\<lambda>(old, new).
       list_all (\<lambda>k.
         list_all (\<lambda>(old', new'). \<not> sublist (old @ drop (length new - k) old') s) T)
         (tail_edges p new)) T"


section \<open>A sample world\<close>

text \<open>
  Five files: one that the pass changes, one that it leaves alone, one that cannot be read,
  and two that the pass changes but that cannot be written (the open fails; the write fails
  after truncation).
\<close>
definition demo :: world where
  "demo = \<lparr>disk = map_of
             [(''a.rs'', Text ''let x = state.product_service.get();''),
              (''b.rs'', Text ''fn main() {}''),
              (''c.rs'', Unreadable (IOError ''Permission denied'')),
              (''d.rs'', Text ''state.tax_service''),
              (''e.rs'', Text ''state.tax_service'')],
           wfault = map_of
             [(''d.rs'', OpenFails (IOError ''Permission denied'')),
              (''e.rs'', WriteFails (IOError ''No space left on device'') ''sta'')],
           missing = (\<lambda>p. IOError ''[Errno 2] No such file or directory''),
           listing = (\<lambda>p. Inr [''mod.rs'', ''notes.txt'', ''auth.rs'']),
           console = [], ops = []\<rparr>"

section \<open>Properties of \<open>replace\<close>\<close>

lemma replace_Nil: "old \<noteq> [] \<Longrightarrow> replace old new [] = []"
  by (simp add: replace.simps)

lemma replace_hit:
  "old \<noteq> [] \<Longrightarrow> replace old new (old @ s) = new @ replace old new s"
  by (subst replace.simps) simp

lemma replace_miss:
  "old \<noteq> [] \<Longrightarrow> \<not> prefix old (c # s) \<Longrightarrow> replace old new (c # s) = c # replace old new s"
  by (subst replace.simps) simp

lemma replace_absent:
  "old \<noteq> [] \<Longrightarrow> \<not> sublist old s \<Longrightarrow> replace old new s = s"
proof (induction s)
  case Nil
  then show ?case by (simp add: replace_Nil)
next
  case (Cons c s)
  from Cons.prems have "\<not> prefix old (c # s)" and "\<not> sublist old s"
    by (simp_all add: sublist_Cons_right)
  with Cons show ?case by (simp add: replace_miss)
qed

lemma subst_pass_absent:
  "\<forall>(old, new) \<in> set table. old \<noteq> [] \<and> \<not> sublist old s \<Longrightarrow> subst_pass table s = s"
  unfolding subst_pass_def
  by (induction table) (auto simp: replace_absent)

lemma replacements_nonempty: "\<forall>(old, new) \<in> set replacements. old \<noteq> []"
  by (simp add: replacements_def)

section \<open>The per-file procedure\<close>

lemmas io_defs = print_line_def read_text_def write_text_def process_body_def process_file_def

lemma process_file_text:
  assumes "disk w p = Some (Text content)"
  shows "process_file p w =
     (if subst_pass replacements content = content
      then w\<lparr>console := console w @ [''Processing '' @ p @ ''...'', ''No changes in '' @ p],
             ops := ops w @ [OpenRead p]\<rparr>
      else case wfault w p of
        None \<Rightarrow> w\<lparr>disk := (disk w)(p \<mapsto> Text (subst_pass replacements content)),
             console := console w @ [''Processing '' @ p @ ''...'', ''Updated '' @ p],
             ops := ops w @ [OpenRead p, OpenWrite p]\<rparr>
      | Some (OpenFails e) \<Rightarrow>
           w\<lparr>console := console w @ [''Processing '' @ p @ ''...'',
                                      ''Error processing '' @ p @ '': '' @ message e],
             ops := ops w @ [OpenRead p, OpenWrite p]\<rparr>
      | Some (WriteFails e partial) \<Rightarrow>
           w\<lparr>disk := (disk w)(p \<mapsto> Text partial),
             console := console w @ [''Processing '' @ p @ ''...'',
                                      ''Error processing '' @ p @ '': '' @ message e],
             ops := ops w @ [OpenRead p, OpenWrite p]\<rparr>)"
  using assms by (auto simp: io_defs Let_def split: option.splits write_fault.splits)

lemma process_file_unreadable:
  assumes "disk w p = Some (Unreadable e)"
  shows "process_file p w =
     w\<lparr>console := console w @ [''Processing '' @ p @ ''...'',
                               ''Error processing '' @ p @ '': '' @ message e],
       ops := ops w @ [OpenRead p]\<rparr>"
  using assms by (simp add: io_defs Let_def)

lemma process_file_absent:
  assumes "disk w p = None"
  shows "process_file p w =
     w\<lparr>console := console w @ [''Processing '' @ p @ ''...'',
                               ''Error processing '' @ p @ '': '' @ message (missing w p)],
       ops := ops w @ [OpenRead p]\<rparr>"
  using assms by (simp add: io_defs Let_def)

lemma pass_a: "subst_pass replacements ''let x = state.product_service.get();'' = ''let x = state.commerce.product.get();''"
  by code_simp

lemma pass_b: "subst_pass replacements ''fn main() {}'' = ''fn main() {}''"
  by code_simp

lemma pass_tax: "subst_pass replacements ''state.tax_service'' = ''state.commerce.taxes''"
  by code_simp

lemma absent_b: "\<forall>(old, new) \<in> set replacements. \<not> sublist old ''fn main() {}''"
  by code_simp

text \<open>
  Claim C4. If the file reads as text, \<open>process_file\<close> opens it for writing exactly when
  the substitution pass changed the content. When the content is unchanged it prints
  "No changes in" and the world is otherwise as before; when it differs (and the write
  succeeds) the file at the same path holds the new content and "Updated" is printed.
\<close>

theorem process_file_writes_iff_changed:
  assumes "disk w p = Some (Text content)"
  shows "ops (process_file p w) =
           ops w @ (if subst_pass replacements content = content then [OpenRead p]
                    else [OpenRead p, OpenWrite p]) \<and>
         (wfault w p = None \<longrightarrow>
            process_file p w =
              (if subst_pass replacements content = content
               then w\<lparr>console := console w @ [''Processing '' @ p @ ''...'', ''No changes in '' @ p],
                      ops := ops w @ [OpenRead p]\<rparr>
               else w\<lparr>disk := (disk w)(p \<mapsto> Text (subst_pass replacements content)),
                      console := console w @ [''Processing '' @ p @ ''...'', ''Updated '' @ p],
                      ops := ops w @ [OpenRead p, OpenWrite p]\<rparr>))"
  using process_file_text [OF assms]
  by (auto split: option.splits write_fault.splits)

theorem process_file_writes_iff_changed_witness:
  "disk demo ''a.rs'' = Some (Text ''let x = state.product_service.get();'') \<and>
   wfault demo ''a.rs'' = None \<and>
   process_file ''a.rs'' demo =
     demo\<lparr>disk := (disk demo)(''a.rs'' \<mapsto> Text ''let x = state.commerce.product.get();''),
          console := [''Processing a.rs...'', ''Updated a.rs''],
          ops := [OpenRead ''a.rs'', OpenWrite ''a.rs'']\<rparr> \<and>
   disk demo ''b.rs'' = Some (Text ''fn main() {}'') \<and>
   wfault demo ''b.rs'' = None \<and>
   process_file ''b.rs'' demo =
     demo\<lparr>console := [''Processing b.rs...'', ''No changes in b.rs''],
          ops := [OpenRead ''b.rs'']\<rparr>"
proof -
  have a: "disk demo ''a.rs'' = Some (Text ''let x = state.product_service.get();'')"
    and b: "disk demo ''b.rs'' = Some (Text ''fn main() {}'')"
    and f: "wfault demo ''a.rs'' = None" "wfault demo ''b.rs'' = None"
    and c: "console demo = []" "ops demo = []"
    by (simp_all add: demo_def)
  show ?thesis
    using process_file_writes_iff_changed [OF a] process_file_writes_iff_changed [OF b]
    by (simp add: a b f c pass_a pass_b)
qed

lemma demo_fields:
  "console demo = []" "ops demo = []"
  "disk demo ''a.rs'' = Some (Text ''let x = state.product_service.get();'')"
  "disk demo ''b.rs'' = Some (Text ''fn main() {}'')"
  "disk demo ''c.rs'' = Some (Unreadable (IOError ''Permission denied''))"
  "disk demo ''d.rs'' = Some (Text ''state.tax_service'')"
  "disk demo ''e.rs'' = Some (Text ''state.tax_service'')"
  "disk demo ''zz.rs'' = None"
  "wfault demo ''a.rs'' = None" "wfault demo ''b.rs'' = None"
  "wfault demo ''d.rs'' = Some (OpenFails (IOError ''Permission denied''))"
  "wfault demo ''e.rs'' = Some (WriteFails (IOError ''No space left on device'') ''sta'')"
  by (simp_all add: demo_def)

text \<open>
  Claim C5. If no old-token of the table occurs in the content, the substitution pass
  returns the content as it is, and \<open>process_file\<close> only reads the file: the disk is
  unchanged and the file is never opened for writing.
\<close>

theorem no_token_no_change:
  assumes "\<forall>(old, new) \<in> set replacements. \<not> sublist old content"
    and "disk w p = Some (Text content)"
  shows "subst_pass replacements content = content \<and>
         disk (process_file p w) = disk w \<and>
         ops (process_file p w) = ops w @ [OpenRead p] \<and>
         process_file p w =
           w\<lparr>console := console w @ [''Processing '' @ p @ ''...'', ''No changes in '' @ p],
             ops := ops w @ [OpenRead p]\<rparr>"
proof -
  have same: "subst_pass replacements content = content"
    using assms(1) replacements_nonempty by (intro subst_pass_absent) fastforce
  then show ?thesis
    using process_file_text [OF assms(2)] by simp
qed

theorem no_token_no_change_witness:
  "\<not> (\<exists>(old, new) \<in> set replacements. sublist old ''fn main() {}'') \<and>
   disk demo ''b.rs'' = Some (Text ''fn main() {}'') \<and>
   subst_pass replacements ''fn main() {}'' = ''fn main() {}'' \<and>
   disk (process_file ''b.rs'' demo) = disk demo \<and>
   ops (process_file ''b.rs'' demo) = [OpenRead ''b.rs'']"
  using no_token_no_change [OF absent_b demo_fields(4)] absent_b
  by (auto simp: demo_fields)

text \<open>
  Claim C9. If the file cannot be opened, read or decoded, \<open>process_file\<close> leaves the disk
  as it was and opens nothing for writing; and whenever it does more than read the file,
  the file had been read as text and the pass had changed that text.
\<close>

theorem read_failure_keeps_disk:
  "((\<forall>content. disk w p \<noteq> Some (Text content)) \<longrightarrow>
      disk (process_file p w) = disk w \<and> ops (process_file p w) = ops w @ [OpenRead p]) \<and>
   (ops (process_file p w) \<noteq> ops w @ [OpenRead p] \<longrightarrow>
      (\<exists>content. disk w p = Some (Text content) \<and> subst_pass replacements content \<noteq> content \<and>
                 ops (process_file p w) = ops w @ [OpenRead p, OpenWrite p]))"
proof (cases "disk w p")
  case None
  then show ?thesis by (simp add: process_file_absent)
next
  case (Some n)
  show ?thesis
  proof (cases n)
    case (Text content)
    with Some have "disk w p = Some (Text content)" by simp
    from process_file_text [OF this] this show ?thesis
      by (auto split: option.splits write_fault.splits)
  next
    case (Unreadable e)
    with Some show ?thesis by (simp add: process_file_unreadable)
  qed
qed

theorem read_failure_keeps_disk_witness:
  "(\<forall>content. disk demo ''c.rs'' \<noteq> Some (Text content)) \<and>
   disk (process_file ''c.rs'' demo) = disk demo \<and>
   ops (process_file ''c.rs'' demo) = [OpenRead ''c.rs''] \<and>
   ops (process_file ''a.rs'' demo) \<noteq> ops demo @ [OpenRead ''a.rs''] \<and>
   (\<exists>content. disk demo ''a.rs'' = Some (Text content) \<and>
       subst_pass replacements content \<noteq> content)"
proof -
  have w: "ops (process_file ''a.rs'' demo) \<noteq> ops demo @ [OpenRead ''a.rs'']"
    using process_file_text [OF demo_fields(3)] by (simp add: pass_a demo_fields)
  show ?thesis
    using read_failure_keeps_disk [of demo "''c.rs''"] read_failure_keeps_disk [of demo "''a.rs''"] w
    by (simp add: demo_fields)
qed

section \<open>The driver loop\<close>

lemma run_targets_Nil: "run_targets [] w = w"
  by (simp add: run_targets_def)

lemma run_targets_Cons: "run_targets (t # ts) w = run_targets ts (visit t w)"
  by (simp add: run_targets_def)

lemma run_targets_append: "run_targets (ts @ us) w = run_targets us (run_targets ts w)"
  by (simp add: run_targets_def)

lemma process_file_grows:
  "(os_path_exists w q \<longrightarrow> os_path_exists (process_file p w) q) \<and>
   set (console w) \<subseteq> set (console (process_file p w))"
proof (cases "disk w p")
  case None
  then show ?thesis by (auto simp: process_file_absent os_path_exists_def)
next
  case (Some n)
  show ?thesis
  proof (cases n)
    case (Text content)
    with Some have "disk w p = Some (Text content)" by simp
    from process_file_text [OF this] show ?thesis
      by (auto simp: os_path_exists_def split: option.splits write_fault.splits)
  next
    case (Unreadable e)
    with Some show ?thesis by (auto simp: process_file_unreadable os_path_exists_def)
  qed
qed

lemma visit_grows:
  "(os_path_exists w q \<longrightarrow> os_path_exists (visit t w) q) \<and>
   set (console w) \<subseteq> set (console (visit t w))"
  using process_file_grows [of w q t]
  by (auto simp: visit_def print_line_def os_path_exists_def)

lemma run_targets_grows:
  "(os_path_exists w q \<longrightarrow> os_path_exists (run_targets ts w) q) \<and>
   set (console w) \<subseteq> set (console (run_targets ts w))"
proof (induction ts arbitrary: w)
  case Nil
  then show ?case by (simp add: run_targets_Nil)
next
  case (Cons t ts)
  from Cons.IH [of "visit t w"] visit_grows [of w q t]
  show ?case by (auto simp: run_targets_Cons)
qed






lemma build_targets_fold:
  "fold (\<lambda>filename targets.
           if endswith filename ''.rs'' then targets @ [os_path_join sep handlers_dir filename]
           else targets) names acc =
   acc @ map (os_path_join sep handlers_dir) (filter (\<lambda>f. suffix ''.rs'' f) names)"
  by (induction names arbitrary: acc) (simp_all add: endswith_def)

lemma handlers_dir_end:
  "\<not> suffix ''/'' handlers_dir" "\<not> suffix [bslash] handlers_dir" "handlers_dir \<noteq> []"
  by (simp_all add: handlers_dir_def bslash_def suffix_to_prefix)

text \<open>
  Claim C8. The target list is the literal path followed by the joined paths of exactly
  those names returned by the directory listing that end with ".rs", in the order of the
  listing; nothing but the name decides whether an entry is taken; with no such name the
  list is the literal path alone. For a name that does not begin with the separator the
  joined path is the directory, the separator and the name.
\<close>

theorem targets_are_literal_then_rs_entries:
  "build_targets sep names =
     legacy_target # map (os_path_join sep handlers_dir) (filter (\<lambda>f. suffix ''.rs'' f) names) \<and>
   ((\<forall>f \<in> set names. \<not> suffix ''.rs'' f) \<longrightarrow> build_targets sep names = [legacy_target]) \<and>
   (listing w handlers_dir = Inr names \<longrightarrow>
      main sep w = Inr (run_targets
        (legacy_target # map (os_path_join sep handlers_dir) (filter (\<lambda>f. suffix ''.rs'' f) names)) w)) \<and>
   (sep \<in> {''/'', [bslash]} \<and> \<not> prefix sep f \<longrightarrow>
      os_path_join sep handlers_dir f = handlers_dir @ sep @ f)"
proof -
  have bt: "build_targets sep names =
     legacy_target # map (os_path_join sep handlers_dir) (filter (\<lambda>f. suffix ''.rs'' f) names)"
    by (simp add: build_targets_def build_targets_fold)
  have none: "build_targets sep names = [legacy_target]" if "\<forall>f \<in> set names. \<not> suffix ''.rs'' f"
  proof -
    from that have "filter (\<lambda>f. suffix ''.rs'' f) names = []"
      by (simp add: filter_empty_conv)
    with bt show ?thesis by simp
  qed
  have j: "os_path_join sep handlers_dir f = handlers_dir @ sep @ f"
    if "sep \<in> {''/'', [bslash]} \<and> \<not> prefix sep f"
    using that handlers_dir_end by (auto simp: os_path_join_def)
  from bt none j show ?thesis
    by (simp add: main_def)
qed

theorem targets_are_literal_then_rs_entries_witness:
  "build_targets [bslash] [''mod.rs'', ''notes.txt'', ''auth.rs''] =
     [legacy_target, handlers_dir @ [bslash] @ ''mod.rs'', handlers_dir @ [bslash] @ ''auth.rs''] \<and>
   \<not> (\<exists>f \<in> set [''notes.txt'', ''Cargo.toml'']. suffix ''.rs'' f) \<and>
   build_targets [bslash] [''notes.txt'', ''Cargo.toml''] = [legacy_target] \<and>
   listing demo handlers_dir = Inr [''mod.rs'', ''notes.txt'', ''auth.rs''] \<and>
   main [bslash] demo =
     Inr (run_targets
       [legacy_target, handlers_dir @ [bslash] @ ''mod.rs'', handlers_dir @ [bslash] @ ''auth.rs''] demo)"
proof -
  have l: "listing demo handlers_dir = Inr [''mod.rs'', ''notes.txt'', ''auth.rs'']"
    by (simp add: demo_def)
  have n: "\<forall>f \<in> set [''notes.txt'', ''Cargo.toml'']. \<not> suffix ''.rs'' f"
    by (simp add: suffix_to_prefix)
  have s: "filter (\<lambda>f. suffix ''.rs'' f) [''mod.rs'', ''notes.txt'', ''auth.rs''] = [''mod.rs'', ''auth.rs'']"
    by (simp add: suffix_to_prefix)
  have p: "\<not> prefix [bslash] ''mod.rs''" "\<not> prefix [bslash] ''auth.rs''"
    by (simp_all add: bslash_def)
  note a = targets_are_literal_then_rs_entries [of "[bslash]" "[''mod.rs'', ''notes.txt'', ''auth.rs'']" demo "''mod.rs''"]
  note b = targets_are_literal_then_rs_entries [of "[bslash]" "[''mod.rs'', ''notes.txt'', ''auth.rs'']" demo "''auth.rs''"]
  note c = targets_are_literal_then_rs_entries [of "[bslash]" "[''notes.txt'', ''Cargo.toml'']" demo "''mod.rs''"]
  from a p have ja: "os_path_join [bslash] handlers_dir ''mod.rs'' = handlers_dir @ [bslash] @ ''mod.rs''"
    by blast
  from b p have jb: "os_path_join [bslash] handlers_dir ''auth.rs'' = handlers_dir @ [bslash] @ ''auth.rs''"
    by blast
  from a s ja jb have t: "build_targets [bslash] [''mod.rs'', ''notes.txt'', ''auth.rs''] =
     [legacy_target, handlers_dir @ [bslash] @ ''mod.rs'', handlers_dir @ [bslash] @ ''auth.rs'']"
    by (simp only: list.map)
  from c n have e: "build_targets [bslash] [''notes.txt'', ''Cargo.toml''] = [legacy_target]"
    by blast
  from a l s ja jb have m: "main [bslash] demo =
     Inr (run_targets
       [legacy_target, handlers_dir @ [bslash] @ ''mod.rs'', handlers_dir @ [bslash] @ ''auth.rs''] demo)"
    by (simp only: list.map)
  from n have n': "\<not> (\<exists>f \<in> set [''notes.txt'', ''Cargo.toml'']. suffix ''.rs'' f)"
    by blast
  from t n' e l m show ?thesis by blast
qed

section \<open>Separated tables\<close>

lemma compatible_refl: "compatible x x"
  by (simp add: compatible_def)

lemma compatible_sym: "compatible x y \<Longrightarrow> compatible y x"
  by (auto simp: compatible_def)

lemma prefix_append_compatible: "prefix a (b @ c) \<Longrightarrow> compatible a b"
  by (auto simp: compatible_def prefix_append)

lemma prefixes_compatible: "prefix a c \<Longrightarrow> prefix b c \<Longrightarrow> compatible a b"
  unfolding compatible_def using prefix_same_cases by blast

lemma compatible_head: "compatible w n \<Longrightarrow> prefix p n \<Longrightarrow> compatible w p"
  unfolding compatible_def
  by (meson prefix_order.trans prefix_same_cases)

lemma prefix_append_cases:
  assumes "prefix a (b @ c)"
  shows "prefix a b \<or> (prefix b a \<and> prefix (drop (length b) a) c)"
  using assms by (auto simp: prefix_append)

lemma apart_iff:
  "apart xs \<longleftrightarrow> distinct xs \<and> (\<forall>x \<in> set xs. \<forall>y \<in> set xs. x \<noteq> y \<longrightarrow> \<not> compatible x y)"
proof (induction xs)
  case Nil
  then show ?case by simp
next
  case (Cons x xs)
  show ?case
    using Cons.IH compatible_refl compatible_sym
    by (auto simp: list_all_iff)
qed

lemma quiet_iff: "quiet p w \<longleftrightarrow> (\<forall>k. 1 \<le> k \<and> k < length w \<longrightarrow> \<not> compatible (drop k w) p)"
  by (auto simp: quiet_def list_all_iff)

lemma ws_head:
  assumes "well_separated p T" "(old, new) \<in> set T"
  shows "prefix p old" "prefix p new" "p \<noteq> []" "old \<noteq> []" "new \<noteq> []"
  using assms by (auto simp: well_separated_def list_all_iff)

lemma ws_distinct: "well_separated p T \<Longrightarrow> distinct (map fst T)"
  by (simp add: well_separated_def apart_iff)

lemma ws_olds:
  assumes "well_separated p T" "(old, new) \<in> set T" "(old', new') \<in> set T" "compatible old old'"
  shows "old = old' \<and> new = new'"
proof -
  from assms have "old = old'"
    unfolding well_separated_def apart_iff by force
  moreover from assms(1) have "distinct (map fst T)" by (rule ws_distinct)
  ultimately show ?thesis
    using assms(2,3) by (metis eq_key_imp_eq_value)
qed

lemma ws_quiet:
  assumes "well_separated p T" "(old, new) \<in> set T" "1 \<le> k" "k < length old"
  shows "\<not> compatible (drop k old) p"
  using assms by (auto simp: well_separated_def list_all_iff quiet_iff)

lemma ws_old_new:
  assumes "well_separated p T" "(old, new) \<in> set T" "(old', new') \<in> set T"
  shows "\<not> compatible old new'"
  using assms by (auto simp: well_separated_def list_all_iff)

lemma ws_new_inner:
  assumes "well_separated p T" "(old, new) \<in> set T" "1 \<le> k" "k < length new"
  shows "\<not> prefix p (drop k new)"
  using assms by (auto simp: well_separated_def list_all_iff)

lemma rewrite_all_Nil: "rewrite_all P [] = []"
  by (simp add: rewrite_all.simps)

lemma find_hit:
  assumes "well_separated p T" "set P \<subseteq> set T" "(old, new) \<in> set P" "prefix old s"
  shows "find (\<lambda>(old, new). old \<noteq> [] \<and> prefix old s) P = Some (old, new)"
proof -
  from assms have ne: "old \<noteq> []" using ws_head(4) by blast
  with assms(3,4) have "find (\<lambda>(old, new). old \<noteq> [] \<and> prefix old s) P \<noteq> None"
    by (auto simp: find_None_iff)
  then obtain o2 n2 where f: "find (\<lambda>(old, new). old \<noteq> [] \<and> prefix old s) P = Some (o2, n2)"
    by fastforce
  then have "(o2, n2) \<in> set P" and "prefix o2 s"
    by (auto simp: find_Some_iff in_set_conv_nth)
  with assms have "compatible old o2" "(o2, n2) \<in> set T" "(old, new) \<in> set T"
    by (auto intro: prefixes_compatible)
  with assms(1) have "old = o2 \<and> new = n2" using ws_olds by blast
  with f show ?thesis by simp
qed

lemma rewrite_hit:
  assumes "well_separated p T" "set P \<subseteq> set T" "(old, new) \<in> set P"
  shows "rewrite_all P (old @ r) = new @ rewrite_all P r"
proof -
  from assms have ne: "old \<noteq> []" using ws_head(4) by blast
  have "find (\<lambda>(old', new'). old' \<noteq> [] \<and> prefix old' (old @ r)) P = Some (old, new)"
    using assms by (intro find_hit) auto
  with ne show ?thesis
    by (subst rewrite_all.simps) simp
qed

lemma rewrite_miss:
  assumes "\<forall>(old, new) \<in> set P. \<not> prefix old (c # s)"
  shows "rewrite_all P (c # s) = c # rewrite_all P s"
proof -
  from assms have "find (\<lambda>(old, new). old \<noteq> [] \<and> prefix old (c # s)) P = None"
    by (auto simp: find_None_iff)
  then show ?thesis
    by (subst rewrite_all.simps) simp
qed

lemma rewrite_through:
  assumes "\<forall>k < length w. \<forall>(old, new) \<in> set P. \<not> prefix old (drop k w @ r)"
  shows "rewrite_all P (w @ r) = w @ rewrite_all P r"
  using assms
proof (induction w)
  case Nil
  then show ?case by simp
next
  case (Cons c w)
  from Cons.prems have "\<forall>(old, new) \<in> set P. \<not> prefix old (c # w @ r)"
    by fastforce
  then have "rewrite_all P (c # w @ r) = c # rewrite_all P (w @ r)"
    by (rule rewrite_miss)
  moreover have "\<forall>k < length w. \<forall>(old, new) \<in> set P. \<not> prefix old (drop k w @ r)"
  proof (intro allI impI)
    fix k assume "k < length w"
    then have "Suc k < length (c # w)" by simp
    with Cons.prems have "\<forall>(old, new) \<in> set P. \<not> prefix old (drop (Suc k) (c # w) @ r)"
      by blast
    then show "\<forall>(old, new) \<in> set P. \<not> prefix old (drop k w @ r)" by simp
  qed
  ultimately show ?case using Cons.IH by simp
qed

lemma replace_through:
  assumes "old \<noteq> []" "\<forall>k < length w. \<not> prefix old (drop k w @ r)"
  shows "replace old new (w @ r) = w @ replace old new r"
  using assms(2)
proof (induction w)
  case Nil
  then show ?case by simp
next
  case (Cons c w)
  from Cons.prems have "\<not> prefix old (c # w @ r)"
    by fastforce
  with assms(1) have "replace old new (c # w @ r) = c # replace old new (w @ r)"
    by (rule replace_miss)
  moreover have "\<forall>k < length w. \<not> prefix old (drop k w @ r)"
  proof (intro allI impI)
    fix k assume "k < length w"
    then have "Suc k < length (c # w)" by simp
    with Cons.prems have "\<not> prefix old (drop (Suc k) (c # w) @ r)"
      by blast
    then show "\<not> prefix old (drop k w @ r)" by simp
  qed
  ultimately show ?case using Cons.IH by simp
qed

lemma rewrite_through_old:
  assumes "well_separated p T" "set P \<subseteq> set T" "(old, new) \<in> set T" "old \<notin> fst ` set P"
  shows "rewrite_all P (old @ r) = old @ rewrite_all P r"
proof (rule rewrite_through, intro allI impI)
  fix k assume k: "k < length old"
  show "\<forall>(old', new') \<in> set P. \<not> prefix old' (drop k old @ r)"
  proof (clarify)
    fix old' new' assume in_P: "(old', new') \<in> set P" and pre: "prefix old' (drop k old @ r)"
    from in_P assms(2) have in_T: "(old', new') \<in> set T" by blast
    from pre have c: "compatible old' (drop k old)" by (rule prefix_append_compatible)
    show False
    proof (cases k)
      case 0
      with c have "compatible old old'" by (simp add: compatible_sym)
      with assms(1,3) in_T have "old = old'" using ws_olds by blast
      with in_P assms(4) show False by force
    next
      case (Suc j)
      from c ws_head(1) [OF assms(1) in_T] have "compatible (drop k old) p"
        using compatible_head compatible_sym by blast
      moreover from Suc k have "1 \<le> k" "k < length old" by simp_all
      ultimately show False using ws_quiet [OF assms(1,3)] by blast
    qed
  qed
qed

lemma rewrite_cases:
  assumes "well_separated p T" "set P \<subseteq> set T" "y \<noteq> []"
  obtains (hit) old new r where "(old, new) \<in> set P" "y = old @ r"
      "rewrite_all P y = new @ rewrite_all P r"
    | (miss) "\<forall>(old, new) \<in> set P. \<not> prefix old y"
      "rewrite_all P y = hd y # rewrite_all P (tl y)"
proof (cases "\<exists>(old, new) \<in> set P. prefix old y")
  case True
  then obtain old new where in_P: "(old, new) \<in> set P" and "prefix old y" by blast
  then obtain r where y: "y = old @ r" by (auto simp: prefix_def)
  from rewrite_hit [OF assms(1,2) in_P] have "rewrite_all P (old @ r) = new @ rewrite_all P r" .
  with in_P y show ?thesis using hit by blast
next
  case False
  then have no: "\<forall>(old, new) \<in> set P. \<not> prefix old y" by blast
  from assms(3) obtain c s where y: "y = c # s" by (cases y) auto
  with no rewrite_miss [of P c s] have "rewrite_all P y = hd y # rewrite_all P (tl y)"
    by simp
  with no show ?thesis using miss by blast
qed

lemma rewrite_prefix_back_free:
  assumes "well_separated p T" "set P \<subseteq> set T"
    and "\<forall>i < length w. \<not> compatible (drop i w) p"
    and "prefix w (rewrite_all P y)"
  shows "prefix w y"
  using assms(3,4)
proof (induction w arbitrary: y)
  case Nil
  then show ?case by simp
next
  case (Cons c w)
  from Cons.prems(2) have "y \<noteq> []"
    by (auto simp: rewrite_all_Nil)
  with assms(1,2) show ?case
  proof (cases rule: rewrite_cases)
    case (hit old new r)
    with Cons.prems(2) have "compatible (c # w) new"
      by (auto intro: prefix_append_compatible)
    moreover from hit(1) assms(1,2) have "prefix p new"
      using ws_head(2) by blast
    ultimately have "compatible (c # w) p" by (rule compatible_head)
    with Cons.prems(1) show ?thesis by fastforce
  next
    case miss
    from \<open>y \<noteq> []\<close> obtain d s where y: "y = d # s" by (cases y) auto
    with miss(2) Cons.prems(2) have cd: "c = d" and pre: "prefix w (rewrite_all P s)"
      by simp_all
    have "\<forall>i < length w. \<not> compatible (drop i w) p"
    proof (intro allI impI)
      fix i assume "i < length w"
      then have "Suc i < length (c # w)" by simp
      with Cons.prems(1) have "\<not> compatible (drop (Suc i) (c # w)) p" by blast
      then show "\<not> compatible (drop i w) p" by simp
    qed
    then have "prefix w s" using pre by (rule Cons.IH)
    with cd y show ?thesis by simp
  qed
qed

lemma old_tail_free:
  assumes "well_separated p T" "(old, new) \<in> set T" "1 \<le> j"
  shows "\<forall>i < length (drop j old). \<not> compatible (drop i (drop j old)) p"
proof (intro allI impI)
  fix i assume "i < length (drop j old)"
  with assms(3) have "1 \<le> i + j" "i + j < length old" by simp_all
  with ws_quiet [OF assms(1,2)] have "\<not> compatible (drop (i + j) old) p" by blast
  then show "\<not> compatible (drop i (drop j old)) p" by simp
qed

lemma rewrite_prefix_back:
  assumes "well_separated p T" "set P \<subseteq> set T" "(old, new) \<in> set T"
    and "prefix old (rewrite_all P y)"
  shows "prefix old y"
proof -
  from assms(1,3) have ne: "old \<noteq> []" using ws_head(4) by blast
  with assms(4) have "y \<noteq> []" by (auto simp: rewrite_all_Nil)
  with assms(1,2) show ?thesis
  proof (cases rule: rewrite_cases)
    case (hit old' new' r)
    with assms(4) have "compatible old new'"
      by (auto intro: prefix_append_compatible)
    moreover from hit(1) assms(2) have "(old', new') \<in> set T" by blast
    ultimately show ?thesis using ws_old_new [OF assms(1,3)] by blast
  next
    case miss
    from ne obtain c w where old: "old = c # w" by (cases old) auto
    from \<open>y \<noteq> []\<close> obtain d s where y: "y = d # s" by (cases y) auto
    from miss(2) assms(4) old y have cd: "c = d" and pre: "prefix w (rewrite_all P s)"
      by simp_all
    from old_tail_free [OF assms(1,3), of 1] old
    have "\<forall>i < length w. \<not> compatible (drop i w) p" by simp
    with assms(1,2) have "prefix w s" using pre by (rule rewrite_prefix_back_free)
    with cd old y show ?thesis by simp
  qed
qed

lemma cascade_free_iff:
  "cascade_free p T s \<longleftrightarrow>
     (\<forall>(old, new) \<in> set T. \<forall>k. 1 \<le> k \<and> k < length new \<and> prefix (drop k new) p \<longrightarrow>
        (\<forall>(old', new') \<in> set T. \<not> sublist (old @ drop (length new - k) old') s))"
  by (auto simp: cascade_free_def tail_edges_def list_all_iff)

lemma sublist_behind: "sublist x s \<Longrightarrow> sublist x (a @ s)"
  by (simp add: sublist_append)

lemma cascade_free_suffix:
  assumes "cascade_free p T (a @ s)"
  shows "cascade_free p T s"
  unfolding cascade_free_iff
proof (intro ballI allI impI, clarify)
  fix old new k old' new'
  assume "(old, new) \<in> set T" "1 \<le> k" "k < length new" "prefix (drop k new) p"
    "(old', new') \<in> set T" "sublist (old @ drop (length new - k) old') s"
  moreover from this(6) have "sublist (old @ drop (length new - k) old') (a @ s)"
    by (rule sublist_behind)
  ultimately show False
    using assms unfolding cascade_free_iff by blast
qed

lemma rewrite_none: "rewrite_all [] s = s"
  by (induction s) (simp_all add: rewrite_all_Nil rewrite_miss)

lemma no_old_behind_new:
  assumes ws: "well_separated p T" and sub: "set P \<subseteq> set T"
    and hit: "(old', new') \<in> set T" and tok: "(old, new) \<in> set T"
    and cf: "cascade_free p T (old' @ s')" and k: "k < length new'"
  shows "\<not> prefix old (drop k new' @ rewrite_all P s')"
proof
  assume pre: "prefix old (drop k new' @ rewrite_all P s')"
  have head: "prefix p old" using ws tok by (rule ws_head(1))
  show False
  proof (cases k)
    case 0
    with pre have "compatible old new'" by (auto intro: prefix_append_compatible)
    with ws_old_new [OF ws tok hit] show False by simp
  next
    case (Suc k')
    then have k1: "1 \<le> k" by simp
    from pre have "prefix old (drop k new') \<or>
        (prefix (drop k new') old \<and> prefix (drop (length (drop k new')) old) (rewrite_all P s'))"
      by (rule prefix_append_cases)
    then show False
    proof
      assume "prefix old (drop k new')"
      with head have "prefix p (drop k new')" by (rule prefix_order.trans)
      with ws_new_inner [OF ws hit k1 k] show False by simp
    next
      assume a: "prefix (drop k new') old \<and>
          prefix (drop (length (drop k new')) old) (rewrite_all P s')"
      with head have "compatible (drop k new') p" by (auto intro: prefixes_compatible)
      with ws_new_inner [OF ws hit k1 k] have edge: "prefix (drop k new') p"
        by (simp add: compatible_def)
      from k have j: "1 \<le> length new' - k" by simp
      from a have "prefix (drop (length new' - k) old) (rewrite_all P s')" by simp
      with ws sub old_tail_free [OF ws tok j]
      have "prefix (drop (length new' - k) old) s'"
        by (rule rewrite_prefix_back_free)
      then have "sublist (old' @ drop (length new' - k) old) (old' @ s')"
        by (auto simp: prefix_def sublist_def)
      moreover from cf hit tok k1 k edge
      have "\<not> sublist (old' @ drop (length new' - k) old) (old' @ s')"
        unfolding cascade_free_iff by blast
      ultimately show False by simp
    qed
  qed
qed

lemma replace_rewrite_step:
  assumes ws: "well_separated p T" and sub: "set P \<subseteq> set T"
    and tok: "(old, new) \<in> set T" and fresh: "old \<notin> fst ` set P"
    and cf: "cascade_free p T s"
  shows "replace old new (rewrite_all P s) = rewrite_all ((old, new) # P) s"
  using cf
proof (induction "length s" arbitrary: s rule: less_induct)
  case less
  from ws tok have ne: "old \<noteq> []" using ws_head(4) by blast
  have sub': "set ((old, new) # P) \<subseteq> set T" using sub tok by simp
  show ?case
  proof (cases "s = []")
    case True
    with ne show ?thesis by (simp add: rewrite_all_Nil replace_Nil)
  next
    case False
    show ?thesis
    proof (cases "prefix old s")
      case True
      then obtain r where s: "s = old @ r" by (auto simp: prefix_def)
      with ne have "length r < length s" by simp
      moreover from less.prems s have "cascade_free p T r" using cascade_free_suffix by blast
      ultimately have ih: "replace old new (rewrite_all P r) = rewrite_all ((old, new) # P) r"
        by (rule less.hyps)
      have "rewrite_all P s = old @ rewrite_all P r"
        unfolding s using ws sub tok fresh by (rule rewrite_through_old)
      moreover have "rewrite_all ((old, new) # P) s = new @ rewrite_all ((old, new) # P) r"
        unfolding s using ws sub' by (rule rewrite_hit) simp
      ultimately show ?thesis using ih ne by (simp add: replace_hit)
    next
      case nopre: False
      from ws sub False show ?thesis
      proof (cases rule: rewrite_cases)
        case (hit old' new' r)
        from hit(1) sub have in_T: "(old', new') \<in> set T" by blast
        with ws have "old' \<noteq> []" using ws_head(4) by blast
        with hit(2) have "length r < length s" by simp
        moreover from less.prems hit(2) have "cascade_free p T r"
          using cascade_free_suffix by blast
        ultimately have ih: "replace old new (rewrite_all P r) = rewrite_all ((old, new) # P) r"
          by (rule less.hyps)
        have "\<forall>k < length new'. \<not> prefix old (drop k new' @ rewrite_all P r)"
          using no_old_behind_new [OF ws sub in_T tok] less.prems hit(2) by blast
        with ne have "replace old new (new' @ rewrite_all P r) = new' @ replace old new (rewrite_all P r)"
          by (rule replace_through)
        moreover have "rewrite_all ((old, new) # P) s = new' @ rewrite_all ((old, new) # P) r"
          unfolding hit(2) using ws sub' by (rule rewrite_hit) (simp add: hit(1))
        ultimately show ?thesis using ih hit(3) by simp
      next
        case miss
        from False obtain c s' where s: "s = c # s'" by (cases s) auto
        then have "length s' < length s" by simp
        moreover from less.prems s have "cascade_free p T s'"
          using cascade_free_suffix [of p T "[c]" s'] by simp
        ultimately have ih: "replace old new (rewrite_all P s') = rewrite_all ((old, new) # P) s'"
          by (rule less.hyps)
        from miss(2) s have rw: "rewrite_all P s = c # rewrite_all P s'" by simp
        have "\<not> prefix old (rewrite_all P s)"
          using rewrite_prefix_back [OF ws sub tok] nopre by blast
        with rw ne have "replace old new (rewrite_all P s) = c # replace old new (rewrite_all P s')"
          by (simp add: replace_miss)
        moreover from miss(1) nopre s have "\<forall>(o', n') \<in> set ((old, new) # P). \<not> prefix o' (c # s')"
          by auto
        then have "rewrite_all ((old, new) # P) (c # s') = c # rewrite_all ((old, new) # P) s'"
          by (rule rewrite_miss)
        ultimately show ?thesis using ih s by simp
      qed
    qed
  qed
qed

lemma fold_replace_rewrite:
  assumes ws: "well_separated p T" and cf: "cascade_free p T s"
  shows "set ps \<subseteq> set T \<Longrightarrow> distinct (map fst ps) \<Longrightarrow> set P \<subseteq> set T \<Longrightarrow>
         fst ` set ps \<inter> fst ` set P = {} \<Longrightarrow>
         fold (\<lambda>(old, new) acc. replace old new acc) ps (rewrite_all P s) = rewrite_all (rev ps @ P) s"
proof (induction ps arbitrary: P)
  case Nil
  then show ?case by simp
next
  case (Cons a ps)
  obtain old new where a: "a = (old, new)" by (cases a)
  from Cons.prems a have tok: "(old, new) \<in> set T" and fresh: "old \<notin> fst ` set P"
    by auto
  from ws Cons.prems(3) tok fresh cf
  have step: "replace old new (rewrite_all P s) = rewrite_all ((old, new) # P) s"
    by (rule replace_rewrite_step)
  from Cons.prems a have "set ps \<subseteq> set T" "distinct (map fst ps)"
    "set ((old, new) # P) \<subseteq> set T" "fst ` set ps \<inter> fst ` set ((old, new) # P) = {}"
    by auto
  then have "fold (\<lambda>(old, new) acc. replace old new acc) ps (rewrite_all ((old, new) # P) s) =
      rewrite_all (rev ps @ (old, new) # P) s"
    by (rule Cons.IH)
  with step a show ?case by simp
qed

lemma subst_pass_is_rewrite:
  assumes "well_separated p T" "cascade_free p T s" "set ps \<subseteq> set T" "distinct (map fst ps)"
  shows "subst_pass ps s = rewrite_all (rev ps) s"
  using fold_replace_rewrite [OF assms(1,2,3,4), of "[]"]
  by (simp add: subst_pass_def rewrite_none)

lemma rewrite_cong:
  assumes ws: "well_separated p T" and sub: "set P \<subseteq> set T" and eq: "set Q = set P"
  shows "rewrite_all P s = rewrite_all Q s"
proof (induction "length s" arbitrary: s rule: less_induct)
  case less
  from sub eq have subQ: "set Q \<subseteq> set T" by simp
  show ?case
  proof (cases "s = []")
    case True
    then show ?thesis by (simp add: rewrite_all_Nil)
  next
    case False
    with ws sub show ?thesis
    proof (cases rule: rewrite_cases)
      case (hit old new r)
      with ws sub have "old \<noteq> []" using ws_head(4) by blast
      with hit(2) have "length r < length s" by simp
      then have "rewrite_all P r = rewrite_all Q r" by (rule less.hyps)
      moreover from hit(1) eq have "(old, new) \<in> set Q" by simp
      with ws subQ have "rewrite_all Q (old @ r) = new @ rewrite_all Q r" by (rule rewrite_hit)
      ultimately show ?thesis using hit by simp
    next
      case miss
      from False obtain c s' where s: "s = c # s'" by (cases s) auto
      then have "length s' < length s" by simp
      then have "rewrite_all P s' = rewrite_all Q s'" by (rule less.hyps)
      moreover from miss(1) eq s have "\<forall>(old, new) \<in> set Q. \<not> prefix old (c # s')" by simp
      then have "rewrite_all Q (c # s') = c # rewrite_all Q s'" by (rule rewrite_miss)
      ultimately show ?thesis using miss(2) s by simp
    qed
  qed
qed

lemma sublist_append_split:
  assumes "sublist x (w @ r)"
  shows "(\<exists>k < length w. prefix x (drop k w @ r)) \<or> sublist x r"
  using assms
proof (induction w)
  case Nil
  then show ?case by simp
next
  case (Cons c w)
  from Cons.prems have "prefix x (c # w @ r) \<or> sublist x (w @ r)"
    by (simp add: sublist_Cons_right)
  then show ?case
  proof
    assume "prefix x (c # w @ r)"
    then have "prefix x (drop 0 (c # w) @ r)" by simp
    then show ?thesis by (metis length_greater_0_conv list.distinct(1))
  next
    assume "sublist x (w @ r)"
    then have "(\<exists>k < length w. prefix x (drop k w @ r)) \<or> sublist x r" by (rule Cons.IH)
    then show ?thesis
    proof
      assume "\<exists>k < length w. prefix x (drop k w @ r)"
      then obtain k where "k < length w" "prefix x (drop k w @ r)" by blast
      then have "Suc k < length (c # w)" "prefix x (drop (Suc k) (c # w) @ r)" by simp_all
      then show ?thesis by blast
    qed simp
  qed
qed

lemma old_in_rewritten:
  assumes ws: "well_separated p T" and sub: "set P \<subseteq> set T" and tok: "(old, new) \<in> set T"
  shows "cascade_free p T s \<Longrightarrow> sublist old (rewrite_all P s) \<Longrightarrow>
         sublist old s \<and> old \<notin> fst ` set P"
proof (induction "length s" arbitrary: s rule: less_induct)
  case less
  from ws tok have ne: "old \<noteq> []" using ws_head(4) by blast
  with less.prems(2) have "s \<noteq> []" by (auto simp: rewrite_all_Nil)
  with ws sub show ?case
  proof (cases rule: rewrite_cases)
    case (hit old' new' r)
    from hit(1) sub have in_T: "(old', new') \<in> set T" by blast
    with ws have "old' \<noteq> []" using ws_head(4) by blast
    with hit(2) have len: "length r < length s" by simp
    from less.prems(1) hit(2) have cfr: "cascade_free p T r"
      using cascade_free_suffix by blast
    from less.prems(2) hit(3) have "sublist old (new' @ rewrite_all P r)" by simp
    then have "(\<exists>k < length new'. prefix old (drop k new' @ rewrite_all P r)) \<or>
        sublist old (rewrite_all P r)"
      by (rule sublist_append_split)
    moreover have "\<forall>k < length new'. \<not> prefix old (drop k new' @ rewrite_all P r)"
      using no_old_behind_new [OF ws sub in_T tok] less.prems(1) hit(2) by blast
    ultimately have "sublist old (rewrite_all P r)" by blast
    with len cfr have "sublist old r \<and> old \<notin> fst ` set P" by (rule less.hyps)
    with hit(2) show ?thesis by (simp add: sublist_behind)
  next
    case miss
    from \<open>s \<noteq> []\<close> obtain c s' where s: "s = c # s'" by (cases s) auto
    then have len: "length s' < length s" by simp
    from less.prems(1) s have cfr: "cascade_free p T s'"
      using cascade_free_suffix [of p T "[c]" s'] by simp
    from less.prems(2) miss(2) s
    have "prefix old (rewrite_all P s) \<or> sublist old (rewrite_all P s')"
      by (simp add: sublist_Cons_right)
    then show ?thesis
    proof
      assume "prefix old (rewrite_all P s)"
      with ws sub tok have pre: "prefix old s" by (rule rewrite_prefix_back)
      then have "sublist old s" by (auto simp: prefix_def)
      moreover from pre miss(1) have "old \<notin> fst ` set P" by force
      ultimately show ?thesis by simp
    next
      assume "sublist old (rewrite_all P s')"
      with len cfr have "sublist old s' \<and> old \<notin> fst ` set P" by (rule less.hyps)
      with s show ?thesis by (simp add: sublist_Cons_right)
    qed
  qed
qed

lemma ws1: "list_all (\<lambda>(old, new). prefix ''state.'' old \<and> prefix ''state.'' new) replacements"
  by code_simp

lemma ws2: "apart (map fst replacements)"
  by code_simp

lemma ws3: "list_all (\<lambda>(old, new). quiet ''state.'' old) replacements"
  by code_simp

lemma ws4: "list_all (\<lambda>(old, new). list_all (\<lambda>(old', new'). \<not> compatible old new') replacements) replacements"
  by code_simp

lemma ws5: "list_all (\<lambda>(old, new). list_all (\<lambda>k. \<not> prefix ''state.'' (drop k new)) [1..<length new]) replacements"
  by code_simp

lemma replacements_separated: "well_separated ''state.'' replacements"
  unfolding well_separated_def using ws1 ws2 ws3 ws4 ws5 by simp

section \<open>The pass on contents without cascades\<close>

lemma cascade_free_if_no_edge_text:
  assumes ws: "well_separated p T"
    and coarse: "list_all (\<lambda>(old, new).
        list_all (\<lambda>k. \<not> sublist (old @ drop (length new - k) p) s) (tail_edges p new)) T"
  shows "cascade_free p T s"
  unfolding cascade_free_iff
proof (intro ballI allI impI, clarify)
  fix old new k old' new'
  assume tok: "(old, new) \<in> set T" and k: "1 \<le> k" "k < length new" "prefix (drop k new) p"
    and tok': "(old', new') \<in> set T"
    and sub: "sublist (old @ drop (length new - k) old') s"
  from ws tok' have "prefix p old'" by (rule ws_head(1))
  then obtain t where old': "old' = p @ t" by (auto simp: prefix_def)
  from k(3) have "length (drop k new) \<le> length p" by (rule prefix_length_le)
  then have "drop (length new - k) old' = drop (length new - k) p @ t"
    using old' by simp
  with sub obtain ps ss where "s = ps @ (old @ drop (length new - k) p) @ (t @ ss)"
    by (auto simp: sublist_def)
  then have "sublist (old @ drop (length new - k) p) s"
    unfolding sublist_def by blast
  moreover from k have "k \<in> set (tail_edges p new)" by (simp add: tail_edges_def)
  ultimately show False using coarse tok by (auto simp: list_all_iff)
qed

lemma replacements_distinct: "distinct (map fst replacements)"
  using replacements_separated by (rule ws_distinct)

lemma subst_pass_rewrite_all:
  assumes "cascade_free ''state.'' replacements s" "set ps = set replacements" "distinct (map fst ps)"
  shows "subst_pass ps s = rewrite_all replacements s"
proof -
  from assms have "subst_pass ps s = rewrite_all (rev ps) s"
    by (intro subst_pass_is_rewrite [OF replacements_separated]) simp_all
  also have "\<dots> = rewrite_all replacements s"
    using assms(2) by (intro rewrite_cong [OF replacements_separated, symmetric]) simp_all
  finally show ?thesis .
qed

lemma output_free_of_olds:
  assumes cf: "cascade_free ''state.'' replacements s" and tok: "(old, new) \<in> set replacements"
  shows "\<not> sublist old (subst_pass replacements s)"
proof
  assume "sublist old (subst_pass replacements s)"
  with subst_pass_rewrite_all [OF cf refl replacements_distinct]
  have "sublist old (rewrite_all replacements s)" by simp
  with old_in_rewritten [OF replacements_separated subset_refl tok cf]
  have "old \<notin> fst ` set replacements" by blast
  with tok show False by force
qed

lemma second_pass_identity:
  assumes "cascade_free ''state.'' replacements s"
  shows "subst_pass replacements (subst_pass replacements s) = subst_pass replacements s"
  using output_free_of_olds [OF assms] replacements_nonempty
  by (intro subst_pass_absent) fastforce

lemma cascade_free_a: "cascade_free ''state.'' replacements ''let x = state.product_service.get();''"
  by (rule cascade_free_if_no_edge_text [OF replacements_separated]) code_simp

text \<open>
  Claim C1, as stated, fails: the pass rewrites
  \<open>state.transaction_servicetate.product_service\<close> to
  \<open>state.commerce.transactionstate.product_service\<close>, which contains the old-token
  \<open>state.product_service\<close> (its pair comes earlier in the table than the one that produced
  it), and a second pass changes the content again.
\<close>

theorem second_pass_changes_counterexample:
  "sublist ''state.product_service''
     (subst_pass replacements ''state.transaction_servicetate.product_service'') \<and>
   subst_pass replacements (subst_pass replacements ''state.transaction_servicetate.product_service'')
     \<noteq> subst_pass replacements ''state.transaction_servicetate.product_service''"
  by code_simp

text \<open>
  Claim C1, amended. For every content that is free of cascades (no old-token is directly
  followed by text that completes the trailing "s" or "st" of its new-token to an
  old-token), no old-token occurs in the output of the pass, a second pass returns its
  input, and a second run of \<open>process_file\<close> on the file (after a first run whose write, if
  any, succeeded) prints "No changes in" and only reads the file.
\<close>

theorem second_pass_no_change:
  assumes "cascade_free ''state.'' replacements content"
  shows "subst_pass replacements (subst_pass replacements content) = subst_pass replacements content \<and>
    list_all (\<lambda>(old, new). \<not> sublist old (subst_pass replacements content)) replacements \<and>
    (disk w p = Some (Text content) \<and> wfault w p = None \<longrightarrow>
       process_file p (process_file p w) =
         (process_file p w)\<lparr>console := console (process_file p w) @
                                 [''Processing '' @ p @ ''...'', ''No changes in '' @ p],
                              ops := ops (process_file p w) @ [OpenRead p]\<rparr>)"
proof -
  let ?out = "subst_pass replacements content"
  have twice: "subst_pass replacements ?out = ?out"
    using assms by (rule second_pass_identity)
  have free: "list_all (\<lambda>(old, new). \<not> sublist old ?out) replacements"
    using output_free_of_olds [OF assms] by (auto simp: list_all_iff)
  have io: "process_file p (process_file p w) =
         (process_file p w)\<lparr>console := console (process_file p w) @
                                 [''Processing '' @ p @ ''...'', ''No changes in '' @ p],
                              ops := ops (process_file p w) @ [OpenRead p]\<rparr>"
    if rd: "disk w p = Some (Text content)" and wr: "wfault w p = None"
  proof (cases "?out = content")
    case True
    with process_file_text [OF rd]
    have "disk (process_file p w) p = Some (Text content)" using rd by simp
    from process_file_text [OF this] True show ?thesis by simp
  next
    case False
    with process_file_text [OF rd] wr
    have "disk (process_file p w) p = Some (Text ?out)" by simp
    from process_file_text [OF this] twice show ?thesis by simp
  qed
  from twice free io show ?thesis by blast
qed

theorem second_pass_no_change_witness:
  "cascade_free ''state.'' replacements ''let x = state.product_service.get();'' \<and>
   disk demo ''a.rs'' = Some (Text ''let x = state.product_service.get();'') \<and>
   wfault demo ''a.rs'' = None \<and>
   subst_pass replacements ''let x = state.commerce.product.get();'' =
     ''let x = state.commerce.product.get();'' \<and>
   console (process_file ''a.rs'' (process_file ''a.rs'' demo)) =
     [''Processing a.rs...'', ''Updated a.rs'', ''Processing a.rs...'', ''No changes in a.rs'']"
proof -
  note inst = second_pass_no_change [OF cascade_free_a, of demo "''a.rs''"]
  from inst have "subst_pass replacements ''let x = state.commerce.product.get();'' =
     ''let x = state.commerce.product.get();''"
    by (simp add: pass_a)
  moreover from inst demo_fields(3,9)
  have "process_file ''a.rs'' (process_file ''a.rs'' demo) =
         (process_file ''a.rs'' demo)\<lparr>console := console (process_file ''a.rs'' demo) @
                                 [''Processing '' @ ''a.rs'' @ ''...'', ''No changes in '' @ ''a.rs''],
                              ops := ops (process_file ''a.rs'' demo) @ [OpenRead ''a.rs'']\<rparr>"
    by blast
  then have "console (process_file ''a.rs'' (process_file ''a.rs'' demo)) =
     [''Processing a.rs...'', ''Updated a.rs'', ''Processing a.rs...'', ''No changes in a.rs'']"
    using process_file_text [OF demo_fields(3)] by (simp add: pass_a demo_fields)
  ultimately show ?thesis using cascade_free_a demo_fields(3,9) by blast
qed

lemma old_not_inside_old:
  assumes ws: "well_separated p T" and tok: "(old, new) \<in> set T" and tok': "(old', new') \<in> set T"
    and sub: "sublist old old'"
  shows "old = old'"
proof -
  from sub obtain ps ss where o': "old' = ps @ old @ ss" by (auto simp: sublist_def)
  have pre: "prefix old (drop (length ps) old')" by (simp add: o')
  show ?thesis
  proof (cases "ps = []")
    case True
    with o' have "compatible old old'" by (simp add: compatible_def)
    with ws tok tok' show ?thesis using ws_olds by blast
  next
    case False
    from ws tok have "old \<noteq> []" using ws_head(4) by blast
    with False o' have k: "1 \<le> length ps" "length ps < length old'"
      by (simp_all add: Suc_leI)
    from ws tok have "prefix p old" by (rule ws_head(1))
    with pre have "prefix p (drop (length ps) old')" using prefix_order.trans by blast
    then have "compatible (drop (length ps) old') p" by (simp add: compatible_def)
    with ws_quiet [OF ws tok' k] show ?thesis by simp
  qed
qed

lemma cascade_free_holds: "cascade_free ''state.'' replacements ''use state.holds_service, state.audit_service;''"
  by (rule cascade_free_if_no_edge_text [OF replacements_separated]) code_simp

text \<open>
  Claim C2, as stated, fails in its second half: on
  \<open>state.holds_servicetate.audit_service\<close> the table order rewrites \<open>state.holds_service\<close>
  first, which forms \<open>state.audit_service\<close>, and then rewrites that as well; the reversed
  order looks for \<open>state.audit_service\<close> before it exists and leaves it in the output.
\<close>

theorem order_matters_counterexample:
  "mset (rev replacements) = mset replacements \<and>
   subst_pass replacements ''state.holds_servicetate.audit_service'' =
     ''state.commerce.holdstate.system.audit'' \<and>
   subst_pass (rev replacements) ''state.holds_servicetate.audit_service'' =
     ''state.commerce.holdstate.audit_service''"
proof -
  have "subst_pass replacements ''state.holds_servicetate.audit_service'' =
     ''state.commerce.holdstate.system.audit''"
    by code_simp
  moreover have "subst_pass (rev replacements) ''state.holds_servicetate.audit_service'' =
     ''state.commerce.holdstate.audit_service''"
    by code_simp
  ultimately show ?thesis by simp
qed

text \<open>
  Claim C2, amended. No old-token of the table is a substring of another old-token, and
  for every content that is free of cascades, applying the 25 pairs in any order (any
  permutation of the table) gives the same final content as applying them in table order.
\<close>

theorem order_irrelevant_without_cascade:
  "(\<forall>(old, new) \<in> set replacements. \<forall>(old', new') \<in> set replacements.
      old \<noteq> old' \<longrightarrow> \<not> sublist old old') \<and>
   (cascade_free ''state.'' replacements content \<and> mset ps = mset replacements \<longrightarrow>
      subst_pass ps content = subst_pass replacements content)"
proof -
  have a: "\<forall>(old, new) \<in> set replacements. \<forall>(old', new') \<in> set replacements.
      old \<noteq> old' \<longrightarrow> \<not> sublist old old'"
    using old_not_inside_old [OF replacements_separated] by blast
  have b: "subst_pass ps content = subst_pass replacements content"
    if cf: "cascade_free ''state.'' replacements content" and perm: "mset ps = mset replacements"
  proof -
    from perm have s: "set ps = set replacements" by (rule mset_eq_setD)
    from perm have "mset (map fst ps) = mset (map fst replacements)" by simp
    then have d: "distinct (map fst ps)"
      using replacements_distinct mset_eq_imp_distinct_iff by blast
    from subst_pass_rewrite_all [OF cf s d]
      subst_pass_rewrite_all [OF cf refl replacements_distinct]
    show ?thesis by simp
  qed
  from a b show ?thesis by blast
qed

theorem order_irrelevant_without_cascade_witness:
  "cascade_free ''state.'' replacements ''use state.holds_service, state.audit_service;'' \<and>
   mset (rev replacements) = mset replacements \<and>
   subst_pass (rev replacements) ''use state.holds_service, state.audit_service;'' =
     ''use state.commerce.holds, state.system.audit;'' \<and>
   \<not> sublist ''state.tax_service'' ''state.audit_service''"
proof -
  note inst = order_irrelevant_without_cascade
    [of "''use state.holds_service, state.audit_service;''" "rev replacements"]
  have p: "mset (rev replacements) = mset replacements" by simp
  have v: "subst_pass replacements ''use state.holds_service, state.audit_service;'' =
     ''use state.commerce.holds, state.system.audit;''"
    by code_simp
  from inst cascade_free_holds p
  have "subst_pass (rev replacements) ''use state.holds_service, state.audit_service;'' =
     subst_pass replacements ''use state.holds_service, state.audit_service;''"
    by blast
  with v have r: "subst_pass (rev replacements) ''use state.holds_service, state.audit_service;'' =
     ''use state.commerce.holds, state.system.audit;''"
    by simp
  have m: "(''state.tax_service'', ''state.commerce.taxes'') \<in> set replacements"
    "(''state.audit_service'', ''state.system.audit'') \<in> set replacements"
    by (simp_all add: replacements_def)
  have ne: "''state.tax_service'' \<noteq> ''state.audit_service''" by simp
  from bspec [OF inst [THEN conjunct1] m(1)]
  have "\<forall>(old', new') \<in> set replacements.
      ''state.tax_service'' \<noteq> old' \<longrightarrow> \<not> sublist ''state.tax_service'' old'"
    by simp
  from bspec [OF this m(2)] have n: "\<not> sublist ''state.tax_service'' ''state.audit_service''"
    by simp
  show ?thesis
    apply (intro conjI)
       apply (rule cascade_free_holds)
      apply (rule p)
     apply (rule r)
    apply (rule n)
    done
qed

section \<open>Missing targets and a console that rejects lines\<close>

lemma print_checked_accepted:
  "out line = None \<Longrightarrow> print_checked out line w = (Inr (), print_line line w)"
  by (simp add: print_checked_def)

lemma process_body_io_accepting:
  assumes "\<forall>line. out line = None"
  shows "process_body_io out p w = process_body p w"
  using assms
  by (auto simp: process_body_io_def process_body_def print_checked_def Let_def
      split: prod.splits sum.splits)

lemma process_file_io_accepting:
  assumes "\<forall>line. out line = None"
  shows "process_file_io out p w = (Inr (), process_file p w)"
  using assms
  by (auto simp: process_file_io_def process_file_def process_body_io_accepting
        print_checked_def
      split: prod.splits sum.splits)

lemma visit_io_accepting:
  assumes "\<forall>line. out line = None"
  shows "visit_io out t w = (Inr (), visit t w)"
  using assms
  by (simp add: visit_io_def visit_def process_file_io_accepting print_checked_def)

lemma run_io_accepting:
  assumes "\<forall>line. out line = None"
  shows "run_io out ts w = (Inr (), run_targets ts w)"
proof (induction ts arbitrary: w)
  case Nil
  then show ?case by (simp add: run_targets_Nil)
next
  case (Cons t ts)
  then show ?case
    by (simp add: visit_io_accepting [OF assms] run_targets_Cons)
qed

lemma process_file_console:
  "\<exists>x. console (process_file p w) = console w @ [''Processing '' @ p @ ''...'', x] \<and>
       (x = ''No changes in '' @ p \<or> x = ''Updated '' @ p \<or>
        (\<exists>e. x = ''Error processing '' @ p @ '': '' @ message e))"
proof (cases "disk w p")
  case None
  then show ?thesis by (auto simp: process_file_absent)
next
  case (Some n)
  show ?thesis
  proof (cases n)
    case (Text content)
    with Some have "disk w p = Some (Text content)" by simp
    from process_file_text [OF this] show ?thesis
      by (auto split: option.splits write_fault.splits)
  next
    case (Unreadable e)
    with Some show ?thesis by (auto simp: process_file_unreadable)
  qed
qed

lemma process_file_exists:
  "os_path_exists (process_file p w) q \<longleftrightarrow> os_path_exists w q"
proof (cases "disk w p")
  case None
  then show ?thesis by (simp add: process_file_absent os_path_exists_def)
next
  case (Some n)
  show ?thesis
  proof (cases n)
    case (Text content)
    with Some have "disk w p = Some (Text content)" by simp
    from process_file_text [OF this] this show ?thesis
      by (auto simp: os_path_exists_def split: option.splits write_fault.splits if_splits)
  next
    case (Unreadable e)
    with Some show ?thesis by (simp add: process_file_unreadable os_path_exists_def)
  qed
qed

lemma visit_exists: "os_path_exists (visit t w) q \<longleftrightarrow> os_path_exists w q"
  by (simp add: visit_def process_file_exists) (simp add: print_line_def os_path_exists_def)

lemma visit_no_processing_of_other:
  assumes "\<not> os_path_exists w t"
    and "(''Processing '' @ t @ ''...'') \<in> set (console (visit q w))"
  shows "(''Processing '' @ t @ ''...'') \<in> set (console w)"
proof (cases "os_path_exists w q")
  case True
  with assms(1) have "q \<noteq> t" by blast
  from process_file_console [of q w] obtain x where
    c: "console (process_file q w) = console w @ [''Processing '' @ q @ ''...'', x]" and
    x: "x = ''No changes in '' @ q \<or> x = ''Updated '' @ q \<or>
        (\<exists>e. x = ''Error processing '' @ q @ '': '' @ message e)"
    by blast
  from x have "x \<noteq> ''Processing '' @ t @ ''...''" by auto
  with assms(2) True c \<open>q \<noteq> t\<close> show ?thesis by (auto simp: visit_def)
next
  case False
  with assms(2) show ?thesis by (auto simp: visit_def print_line_def)
qed

lemma run_no_processing_of_missing:
  "\<not> os_path_exists w t \<Longrightarrow>
   (''Processing '' @ t @ ''...'') \<in> set (console (run_targets ts w)) \<Longrightarrow>
   (''Processing '' @ t @ ''...'') \<in> set (console w)"
proof (induction ts arbitrary: w)
  case Nil
  then show ?case by (simp add: run_targets_Nil)
next
  case (Cons q ts)
  from Cons.prems(1) have "\<not> os_path_exists (visit q w) t" by (simp add: visit_exists)
  moreover from Cons.prems(2)
  have "(''Processing '' @ t @ ''...'') \<in> set (console (run_targets ts (visit q w)))"
    by (simp add: run_targets_Cons)
  ultimately have "(''Processing '' @ t @ ''...'') \<in> set (console (visit q w))"
    by (rule Cons.IH)
  with Cons.prems(1) show ?case by (rule visit_no_processing_of_other)
qed

lemma run_reports_missing:
  "t \<in> set ts \<Longrightarrow> \<not> os_path_exists w t \<Longrightarrow>
   (''File not found: '' @ t) \<in> set (console (run_targets ts w))"
proof (induction ts arbitrary: w)
  case Nil
  then show ?case by simp
next
  case (Cons q ts)
  show ?case
  proof (cases "q = t")
    case True
    with Cons.prems(2) have "(''File not found: '' @ t) \<in> set (console (visit q w))"
      by (simp add: visit_def print_line_def)
    with run_targets_grows [of "visit q w" t ts] show ?thesis
      by (auto simp: run_targets_Cons)
  next
    case False
    with Cons.prems(1) have "t \<in> set ts" by simp
    moreover from Cons.prems(2) have "\<not> os_path_exists (visit q w) t" by (simp add: visit_exists)
    ultimately show ?thesis using Cons.IH by (simp add: run_targets_Cons)
  qed
qed

lemma accent_target_missing: "\<not> os_path_exists demo accent_target"
  by (simp add: os_path_exists_def demo_def accent_target_def)

lemma accent_line_rejected:
  "ascii_stdout (''File not found: '' @ accent_target) = Some (IOError ''codec cannot encode character'')"
  by (simp add: ascii_stdout_def accent_target_def)

text \<open>
  Claim C7, as stated, fails: the \<open>print\<close> of line 65 stands outside every \<open>try\<close>. On a
  console that encodes ASCII only, a missing target whose name has a character outside
  ASCII makes that \<open>print\<close> raise; the exception leaves the loop, nothing is printed and the
  next target, which exists, is never processed.
\<close>

theorem missing_target_aborts_counterexample:
  "\<not> os_path_exists demo accent_target \<and>
   os_path_exists demo ''b.rs'' \<and>
   run_io ascii_stdout [accent_target, ''b.rs''] demo =
     (Inl (IOError ''codec cannot encode character''), demo)"
proof -
  have "os_path_exists demo ''b.rs''"
    by (simp add: os_path_exists_def demo_fields)
  moreover have "run_io ascii_stdout [accent_target, ''b.rs''] demo =
     (Inl (IOError ''codec cannot encode character''), demo)"
    using accent_target_missing accent_line_rejected
    by (simp add: visit_io_def print_checked_def)
  ultimately show ?thesis using accent_target_missing by simp
qed

text \<open>
  Claim C7, amended. When the driver reaches a target that does not exist, it does not
  call \<open>process_file\<close> and prints "File not found: " and the path; if the console accepts
  that line, nothing else changes and the driver goes on with the next target, and if the
  console rejects it, the exception of \<open>print\<close> ends the run there. A target that exists is
  handed to \<open>process_file\<close>. On a console that accepts every line the loop returns normally
  for every target list, with a "File not found" line for each missing target and no
  "Processing" line for it.
\<close>

theorem missing_target_reported_if_printable:
  "(\<not> os_path_exists w t \<longrightarrow>
      run_io out (t # rest) w =
        (case out (''File not found: '' @ t) of
           None \<Rightarrow> run_io out rest (w\<lparr>console := console w @ [''File not found: '' @ t]\<rparr>)
         | Some e \<Rightarrow> (Inl e, w))) \<and>
   (os_path_exists w t \<longrightarrow>
      run_io out (t # rest) w =
        (case process_file_io out t w of
           (Inl e, w') \<Rightarrow> (Inl e, w')
         | (Inr u, w') \<Rightarrow> run_io out rest w')) \<and>
   ((\<forall>line. out line = None) \<and> t \<in> set ts \<and> \<not> os_path_exists w t \<longrightarrow>
      (\<exists>w'. run_io out ts w = (Inr (), w') \<and>
            (''File not found: '' @ t) \<in> set (console w') \<and>
            ((''Processing '' @ t @ ''...'') \<in> set (console w') \<longrightarrow>
             (''Processing '' @ t @ ''...'') \<in> set (console w))))"
proof (intro conjI impI)
  assume "\<not> os_path_exists w t"
  then show "run_io out (t # rest) w =
        (case out (''File not found: '' @ t) of
           None \<Rightarrow> run_io out rest (w\<lparr>console := console w @ [''File not found: '' @ t]\<rparr>)
         | Some e \<Rightarrow> (Inl e, w))"
    by (simp add: visit_io_def print_checked_def print_line_def split: option.splits)
next
  assume "os_path_exists w t"
  then show "run_io out (t # rest) w =
        (case process_file_io out t w of
           (Inl e, w') \<Rightarrow> (Inl e, w')
         | (Inr u, w') \<Rightarrow> run_io out rest w')"
    by (simp add: visit_io_def)
next
  assume a: "(\<forall>line. out line = None) \<and> t \<in> set ts \<and> \<not> os_path_exists w t"
  then have "run_io out ts w = (Inr (), run_targets ts w)"
    by (simp add: run_io_accepting)
  moreover from a have "(''File not found: '' @ t) \<in> set (console (run_targets ts w))"
    using run_reports_missing by blast
  moreover from a have "(''Processing '' @ t @ ''...'') \<in> set (console (run_targets ts w)) \<longrightarrow>
             (''Processing '' @ t @ ''...'') \<in> set (console w)"
    using run_no_processing_of_missing by blast
  ultimately show "\<exists>w'. run_io out ts w = (Inr (), w') \<and>
            (''File not found: '' @ t) \<in> set (console w') \<and>
            ((''Processing '' @ t @ ''...'') \<in> set (console w') \<longrightarrow>
             (''Processing '' @ t @ ''...'') \<in> set (console w))"
    by blast
qed

theorem missing_target_reported_if_printable_witness:
  "\<not> os_path_exists demo ''zz.rs'' \<and>
   os_path_exists demo ''b.rs'' \<and>
   run_io (\<lambda>line. None) [''zz.rs'', ''b.rs''] demo =
     run_io (\<lambda>line. None) [''b.rs''] (demo\<lparr>console := [''File not found: zz.rs'']\<rparr>) \<and>
   run_io ascii_stdout [accent_target, ''b.rs''] demo =
     (Inl (IOError ''codec cannot encode character''), demo) \<and>
   fst (run_io (\<lambda>line. None) [''zz.rs'', ''b.rs''] demo) = Inr () \<and>
   ''File not found: zz.rs'' \<in> set (console (snd (run_io (\<lambda>line. None) [''zz.rs'', ''b.rs''] demo))) \<and>
   ''Processing zz.rs...'' \<notin> set (console (snd (run_io (\<lambda>line. None) [''zz.rs'', ''b.rs''] demo)))"
proof -
  have zz: "\<not> os_path_exists demo ''zz.rs''" and b: "os_path_exists demo ''b.rs''"
    by (simp_all add: os_path_exists_def demo_fields)
  note step = missing_target_reported_if_printable
    [of demo "''zz.rs''" "\<lambda>line. None" "[''b.rs'']" "[''zz.rs'', ''b.rs'']", THEN conjunct1]
  note bad = missing_target_reported_if_printable
    [of demo accent_target ascii_stdout "[''b.rs'']" "[]", THEN conjunct1]
  note all = missing_target_reported_if_printable
    [of demo "''zz.rs''" "\<lambda>line. None" "[]" "[''zz.rs'', ''b.rs'']",
      THEN conjunct2, THEN conjunct2]
  from step zz have s: "run_io (\<lambda>line. None) [''zz.rs'', ''b.rs''] demo =
     run_io (\<lambda>line. None) [''b.rs''] (demo\<lparr>console := [''File not found: zz.rs'']\<rparr>)"
    by (simp add: demo_fields)
  from bad accent_target_missing accent_line_rejected
  have r: "run_io ascii_stdout [accent_target, ''b.rs''] demo =
     (Inl (IOError ''codec cannot encode character''), demo)"
    by simp
  from all zz obtain w' where w': "run_io (\<lambda>line. None) [''zz.rs'', ''b.rs''] demo = (Inr (), w')"
    "(''File not found: '' @ ''zz.rs'') \<in> set (console w')"
    "(''Processing '' @ ''zz.rs'' @ ''...'') \<in> set (console w') \<longrightarrow>
       (''Processing '' @ ''zz.rs'' @ ''...'') \<in> set (console demo)"
    by auto
  from w'(3) have np: "''Processing zz.rs...'' \<notin> set (console w')"
    by (auto simp: demo_fields)
  from w'(2) have fnf: "''File not found: zz.rs'' \<in> set (console w')" by simp
  have f: "fst (run_io (\<lambda>line. None) [''zz.rs'', ''b.rs''] demo) = Inr ()"
    and c: "''File not found: zz.rs'' \<in> set (console (snd (run_io (\<lambda>line. None) [''zz.rs'', ''b.rs''] demo)))"
    and n: "''Processing zz.rs...'' \<notin> set (console (snd (run_io (\<lambda>line. None) [''zz.rs'', ''b.rs''] demo)))"
    using w'(1) fnf np by (simp_all only: fst_conv snd_conv not_False_eq_True)
  show ?thesis
    apply (intro conjI)
          apply (rule zz)
         apply (rule b)
        apply (rule s)
       apply (rule r)
      apply (rule f)
     apply (rule c)
    apply (rule n)
    done
qed

section \<open>A single occurrence\<close>

lemma sublist_iff_prefix_drop: "sublist x s \<longleftrightarrow> (\<exists>k. prefix x (drop k s))"
proof
  assume "sublist x s"
  then obtain ps ss where "s = ps @ x @ ss" by (auto simp: sublist_def)
  then have "prefix x (drop (length ps) s)" by simp
  then show "\<exists>k. prefix x (drop k s)" by blast
next
  assume "\<exists>k. prefix x (drop k s)"
  then obtain k ss where "drop k s = x @ ss" by (auto simp: prefix_def)
  then have "s = take k s @ x @ ss" by (metis append_take_drop_id)
  then show "sublist x s" unfolding sublist_def by blast
qed















section \<open>An occurrence is rewritten where it stands\<close>

lemma replace_match:
  "old \<noteq> [] \<Longrightarrow> prefix old s \<Longrightarrow> replace old new s = new @ replace old new (drop (length old) s)"
  by (subst replace.simps) auto

lemma subst_pass_Cons:
  "subst_pass ((old, new) # ps) s = subst_pass ps (replace old new s)"
  by (simp add: subst_pass_def)

lemma replace_split:
  assumes ne: "old \<noteq> []"
  shows "\<forall>k < length a. prefix old (drop k a @ y) \<longrightarrow> prefix old (drop k a) \<Longrightarrow>
         replace old new (a @ y) = replace old new a @ replace old new y"
proof (induction "length a" arbitrary: a rule: less_induct)
  case less
  show ?case
  proof (cases a)
    case Nil
    with ne show ?thesis by (simp add: replace_Nil)
  next
    case (Cons c a')
    show ?thesis
    proof (cases "prefix old (a @ y)")
      case True
      with less.prems Cons have "prefix old a" by fastforce
      then obtain a2 where a: "a = old @ a2" by (auto simp: prefix_def)
      with ne have len: "length a2 < length a" by simp
      have "\<forall>k < length a2. prefix old (drop k a2 @ y) \<longrightarrow> prefix old (drop k a2)"
      proof (intro allI impI)
        fix k assume "k < length a2" "prefix old (drop k a2 @ y)"
        then have "length old + k < length a" "prefix old (drop (length old + k) a @ y)"
          using a by simp_all
        with less.prems have "prefix old (drop (length old + k) a)" by blast
        then show "prefix old (drop k a2)" using a by simp
      qed
      with len have "replace old new (a2 @ y) = replace old new a2 @ replace old new y"
        by (rule less.hyps)
      with ne a show ?thesis by (simp add: replace_hit)
    next
      case False
      then have "\<not> prefix old a" by (auto simp: prefix_def)
      from Cons have len: "length a' < length a" by simp
      have "\<forall>k < length a'. prefix old (drop k a' @ y) \<longrightarrow> prefix old (drop k a')"
      proof (intro allI impI)
        fix k assume "k < length a'" "prefix old (drop k a' @ y)"
        then have "Suc k < length a" "prefix old (drop (Suc k) a @ y)"
          using Cons by simp_all
        with less.prems have "prefix old (drop (Suc k) a)" by blast
        then show "prefix old (drop k a')" using Cons by simp
      qed
      with len have "replace old new (a' @ y) = replace old new a' @ replace old new y"
        by (rule less.hyps)
      with ne False \<open>\<not> prefix old a\<close> Cons show ?thesis by (simp add: replace_miss)
    qed
  qed
qed

lemma no_straddle_into:
  assumes ws: "well_separated p T" and tok: "(old, new) \<in> set T" and head: "prefix p w"
  shows "\<forall>k < length a. prefix old (drop k a @ w @ b) \<longrightarrow> prefix old (drop k a)"
proof (intro allI impI)
  fix k assume k: "k < length a" and pre: "prefix old (drop k a @ w @ b)"
  show "prefix old (drop k a)"
  proof (rule ccontr)
    assume no: "\<not> prefix old (drop k a)"
    let ?x = "drop k a"
    from pre no have x: "prefix ?x old" and rest: "prefix (drop (length ?x) old) (w @ b)"
      using prefix_append_cases by blast+
    from k have "1 \<le> length ?x" by simp
    moreover from x no have "length ?x < length old"
      by (metis prefix_length_le le_neq_implies_less prefix_length_prefix order_refl prefix_order.eq_iff)
    moreover from rest have "compatible (drop (length ?x) old) w"
      by (rule prefix_append_compatible)
    then have "compatible (drop (length ?x) old) p" using head by (rule compatible_head)
    ultimately show False using ws_quiet [OF ws tok] by blast
  qed
qed

lemma replace_around_old:
  assumes ws: "well_separated p T" and tok: "(old, new) \<in> set T" and tok': "(old', new') \<in> set T"
    and diff: "old \<noteq> old'"
  shows "replace old new (a @ old' @ b) = replace old new a @ old' @ replace old new b"
proof -
  from ws tok have ne: "old \<noteq> []" using ws_head(4) by blast
  from ws tok' have head: "prefix p old'" by (rule ws_head(1))
  have "replace old new (a @ old' @ b) = replace old new a @ replace old new (old' @ b)"
    using ne no_straddle_into [OF ws tok head] by (rule replace_split)
  moreover have "\<forall>k < length old'. \<not> prefix old (drop k old' @ b)"
  proof (intro allI impI)
    fix k assume k: "k < length old'"
    show "\<not> prefix old (drop k old' @ b)"
    proof
      assume "prefix old (drop k old' @ b)"
      then have c: "compatible old (drop k old')" by (rule prefix_append_compatible)
      show False
      proof (cases k)
        case 0
        with c ws tok tok' diff show False using ws_olds by fastforce
      next
        case (Suc j)
        from c have "compatible (drop k old') old" by (rule compatible_sym)
        then have "compatible (drop k old') p"
          using ws_head(1) [OF ws tok] by (rule compatible_head)
        with ws_quiet [OF ws tok'] Suc k show False by simp
      qed
    qed
  qed
  with ne have "replace old new (old' @ b) = old' @ replace old new b"
    by (rule replace_through)
  ultimately show ?thesis by simp
qed

lemma replace_at_old:
  assumes ws: "well_separated p T" and tok: "(old, new) \<in> set T"
  shows "replace old new (a @ old @ b) = replace old new a @ new @ replace old new b"
proof -
  from ws tok have ne: "old \<noteq> []" using ws_head(4) by blast
  from ws tok have head: "prefix p old" by (rule ws_head(1))
  have "replace old new (a @ old @ b) = replace old new a @ replace old new (old @ b)"
    using ne no_straddle_into [OF ws tok head] by (rule replace_split)
  with ne show ?thesis by (simp add: replace_hit)
qed

lemma new_tail_match:
  assumes ws: "well_separated p T" and tok: "(old, new) \<in> set T" and tok': "(old', new') \<in> set T"
    and k: "1 \<le> k" "k < length new'" and pre: "prefix old (drop k new' @ b)"
  shows "prefix (drop k new') p"
proof -
  from pre have "prefix old (drop k new') \<or> prefix (drop k new') old"
    using prefix_append_cases by blast
  then have "compatible (drop k new') p"
  proof
    assume "prefix old (drop k new')"
    with ws_head(1) [OF ws tok] have "prefix p (drop k new')" by (rule prefix_order.trans)
    then show ?thesis by (simp add: compatible_def)
  next
    assume "prefix (drop k new') old"
    with ws_head(1) [OF ws tok] show ?thesis by (auto intro: prefixes_compatible)
  qed
  with ws_new_inner [OF ws tok' k] show ?thesis by (simp add: compatible_def)
qed

lemma replace_behind_new_tail:
  assumes ws: "well_separated p T" and tok: "(old, new) \<in> set T" and tok': "(old', new') \<in> set T"
  shows "1 \<le> k \<Longrightarrow> k \<le> length new' \<Longrightarrow>
         \<exists>b'. replace old new (drop k new' @ b) = drop k new' @ b'"
proof (induction "length new' - k" arbitrary: k)
  case 0
  then show ?case by simp
next
  case (Suc d)
  from Suc.hyps(2) have k: "k < length new'" by simp
  from ws tok have ne: "old \<noteq> []" using ws_head(4) by blast
  show ?case
  proof (cases "prefix old (drop k new' @ b)")
    case True
    with ws tok tok' Suc.prems(1) k have "prefix (drop k new') p" by (rule new_tail_match)
    then have "prefix (drop k new') new" using ws_head(2) [OF ws tok] by (rule prefix_order.trans)
    then obtain n' where "new = drop k new' @ n'" by (auto simp: prefix_def)
    moreover from ne True have "replace old new (drop k new' @ b) =
        new @ replace old new (drop (length old) (drop k new' @ b))"
      by (rule replace_match)
    ultimately show ?thesis by simp
  next
    case False
    from k have w: "drop k new' = new' ! k # drop (Suc k) new'"
      by (simp add: Cons_nth_drop_Suc)
    from Suc.hyps(2) k have "d = length new' - Suc k" "1 \<le> Suc k" "Suc k \<le> length new'"
      by simp_all
    then obtain b' where "replace old new (drop (Suc k) new' @ b) = drop (Suc k) new' @ b'"
      using Suc.hyps(1) by blast
    moreover from ne False w
    have "replace old new (drop k new' @ b) = new' ! k # replace old new (drop (Suc k) new' @ b)"
      by (simp add: replace_miss)
    ultimately show ?thesis using w by simp
  qed
qed

lemma replace_keeps_new:
  assumes ws: "well_separated p T" and tok: "(old, new) \<in> set T" and tok': "(old', new') \<in> set T"
  shows "\<exists>b'. replace old new (a @ new' @ b) = replace old new a @ new' @ b'"
proof -
  from ws tok have ne: "old \<noteq> []" using ws_head(4) by blast
  from ws tok' have head: "prefix p new'" and ne': "new' \<noteq> []"
    using ws_head by blast+
  have split: "replace old new (a @ new' @ b) = replace old new a @ replace old new (new' @ b)"
    using ne no_straddle_into [OF ws tok head] by (rule replace_split)
  have "\<not> prefix old (new' @ b)"
    using ws_old_new [OF ws tok tok'] prefix_append_compatible by blast
  moreover from ne' obtain c w where n: "new' = c # w" by (cases new') auto
  ultimately have "replace old new (new' @ b) = c # replace old new (w @ b)"
    using ne by (simp add: replace_miss)
  moreover from n have "w = drop 1 new'" "1 \<le> length new'" by simp_all
  then obtain b' where "replace old new (w @ b) = w @ b'"
    using replace_behind_new_tail [OF ws tok tok', of 1 b] by auto
  ultimately have "replace old new (new' @ b) = new' @ b'" using n by simp
  with split show ?thesis by simp
qed

lemma replace_around_new:
  assumes ws: "well_separated p T" and tok: "(old, new) \<in> set T" and tok': "(old', new') \<in> set T"
    and closed: "tail_edges p new' = []"
  shows "replace old new (a @ new' @ b) = replace old new a @ new' @ replace old new b"
proof -
  from ws tok have ne: "old \<noteq> []" using ws_head(4) by blast
  from ws tok' have head: "prefix p new'" by (rule ws_head(2))
  have split: "replace old new (a @ new' @ b) = replace old new a @ replace old new (new' @ b)"
    using ne no_straddle_into [OF ws tok head] by (rule replace_split)
  have "\<forall>k < length new'. \<not> prefix old (drop k new' @ b)"
  proof (intro allI impI)
    fix k assume k: "k < length new'"
    show "\<not> prefix old (drop k new' @ b)"
    proof
      assume pre: "prefix old (drop k new' @ b)"
      show False
      proof (cases k)
        case 0
        with pre have "compatible old new'" by (auto intro: prefix_append_compatible)
        with ws_old_new [OF ws tok tok'] show False by simp
      next
        case (Suc j)
        then have "1 \<le> k" by simp
        with ws tok tok' have "prefix (drop k new') p" using k pre by (rule new_tail_match)
        with \<open>1 \<le> k\<close> k have "k \<in> set (tail_edges p new')" by (simp add: tail_edges_def)
        with closed show False by simp
      qed
    qed
  qed
  with ne have "replace old new (new' @ b) = new' @ replace old new b"
    by (rule replace_through)
  with split show ?thesis by simp
qed

lemma pass_keeps_new:
  assumes ws: "well_separated p T" and tok': "(old', new') \<in> set T"
  shows "set ps \<subseteq> set T \<Longrightarrow> \<exists>b'. subst_pass ps (a @ new' @ b) = subst_pass ps a @ new' @ b'"
proof (induction ps arbitrary: a b)
  case Nil
  then show ?case by (simp add: subst_pass_def)
next
  case (Cons x ps)
  obtain old new where x: "x = (old, new)" by (cases x)
  with Cons.prems have tok: "(old, new) \<in> set T" and sub: "set ps \<subseteq> set T" by simp_all
  from replace_keeps_new [OF ws tok tok'] obtain b1 where
    "replace old new (a @ new' @ b) = replace old new a @ new' @ b1" by blast
  moreover from Cons.IH [OF sub] obtain b2 where
    "subst_pass ps (replace old new a @ new' @ b1) = subst_pass ps (replace old new a) @ new' @ b2"
    by blast
  ultimately show ?case using x by (simp add: subst_pass_Cons)
qed

lemma pass_around_new:
  assumes ws: "well_separated p T" and tok': "(old', new') \<in> set T"
    and closed: "tail_edges p new' = []"
  shows "set ps \<subseteq> set T \<Longrightarrow>
         subst_pass ps (a @ new' @ b) = subst_pass ps a @ new' @ subst_pass ps b"
proof (induction ps arbitrary: a b)
  case Nil
  then show ?case by (simp add: subst_pass_def)
next
  case (Cons x ps)
  obtain old new where x: "x = (old, new)" by (cases x)
  with Cons.prems have tok: "(old, new) \<in> set T" and sub: "set ps \<subseteq> set T" by simp_all
  from replace_around_new [OF ws tok tok' closed] Cons.IH [OF sub] x
  show ?case by (simp add: subst_pass_Cons)
qed

lemma pass_at_old:
  assumes ws: "well_separated p T" and tok': "(old', new') \<in> set T"
  shows "set ps \<subseteq> set T \<Longrightarrow> (old', new') \<in> set ps \<Longrightarrow>
         \<exists>b'. subst_pass ps (a @ old' @ b) = subst_pass ps a @ new' @ b' \<and>
              (tail_edges p new' = [] \<longrightarrow> b' = subst_pass ps b)"
proof (induction ps arbitrary: a b)
  case Nil
  then show ?case by simp
next
  case (Cons x ps)
  obtain old new where x: "x = (old, new)" by (cases x)
  with Cons.prems have tok: "(old, new) \<in> set T" and sub: "set ps \<subseteq> set T" by simp_all
  show ?case
  proof (cases "old = old'")
    case True
    with ws tok tok' have new: "new = new'" using ws_olds compatible_refl by blast
    from True new replace_at_old [OF ws tok']
    have r: "replace old new (a @ old' @ b) = replace old new a @ new' @ replace old new b"
      by simp
    from pass_keeps_new [OF ws tok' sub] obtain b' where
      k: "subst_pass ps (replace old new a @ new' @ replace old new b) =
          subst_pass ps (replace old new a) @ new' @ b'" by blast
    show ?thesis
    proof (cases "tail_edges p new' = []")
      case True
      from pass_around_new [OF ws tok' True sub] r x show ?thesis
        by (simp add: subst_pass_Cons)
    next
      case False
      with r k x show ?thesis by (simp add: subst_pass_Cons)
    qed
  next
    case False
    with Cons.prems(2) x have in_ps: "(old', new') \<in> set ps" by auto
    from replace_around_old [OF ws tok tok' False]
    have r: "replace old new (a @ old' @ b) = replace old new a @ old' @ replace old new b" .
    from Cons.IH [OF sub in_ps] obtain b' where
      "subst_pass ps (replace old new a @ old' @ replace old new b) =
         subst_pass ps (replace old new a) @ new' @ b' \<and>
       (tail_edges p new' = [] \<longrightarrow> b' = subst_pass ps (replace old new b))"
      by blast
    with r x show ?thesis by (simp add: subst_pass_Cons)
  qed
qed

lemma tokens_in_order:
  assumes ws: "well_separated p T" and x: "(x, x') \<in> set T" and y: "(y, y') \<in> set T"
    and at_i: "prefix x (drop i s)" and at_j: "prefix y (drop j s)" and lt: "i < j"
  shows "\<exists>a b c. s = a @ x @ b @ y @ c"
proof -
  from at_i obtain r where r: "drop i s = x @ r" by (auto simp: prefix_def)
  have far: "i + length x \<le> j"
  proof (rule ccontr)
    assume "\<not> i + length x \<le> j"
    with lt have d: "1 \<le> j - i" "j - i < length x" by simp_all
    from lt have "drop j s = drop (j - i) (drop i s)" by simp
    with r d have "drop j s = drop (j - i) x @ r" by simp
    with at_j have "compatible y (drop (j - i) x)" by (auto intro: prefix_append_compatible)
    then have "compatible (drop (j - i) x) y" by (rule compatible_sym)
    then have "compatible (drop (j - i) x) p" using ws_head(1) [OF ws y] by (rule compatible_head)
    with ws_quiet [OF ws x d] show False by simp
  qed
  then have "drop j s = drop (j - (i + length x)) (drop (i + length x) s)" by simp
  also have "drop (i + length x) s = r"
    using r by (metis add.commute append_eq_conv_conj drop_drop)
  finally have "prefix y (drop (j - (i + length x)) r)" using at_j by simp
  then obtain c where "drop (j - (i + length x)) r = y @ c" by (auto simp: prefix_def)
  then have "r = take (j - (i + length x)) r @ y @ c" by (metis append_take_drop_id)
  moreover from r have "s = take i s @ x @ r" by (metis append_take_drop_id)
  ultimately have "s = take i s @ x @ take (j - (i + length x)) r @ y @ c" by simp
  then show ?thesis by blast
qed

lemma two_tokens_apart:
  assumes ws: "well_separated p T" and x: "(x, x') \<in> set T" and y: "(y, y') \<in> set T"
    and diff: "x \<noteq> y" and sx: "sublist x s" and sy: "sublist y s"
  shows "(\<exists>a b c. s = a @ x @ b @ y @ c) \<or> (\<exists>a b c. s = a @ y @ b @ x @ c)"
proof -
  from sx sy obtain i j where i: "prefix x (drop i s)" and j: "prefix y (drop j s)"
    by (auto simp: sublist_iff_prefix_drop)
  have "i \<noteq> j"
  proof
    assume "i = j"
    with i j have "compatible x y" by (auto intro: prefixes_compatible)
    with ws x y diff show False using ws_olds by blast
  qed
  then consider "i < j" | "j < i" by linarith
  then show ?thesis
  proof cases
    case 1
    with ws x y i j have "\<exists>a b c. s = a @ x @ b @ y @ c" by (rule tokens_in_order)
    then show ?thesis by simp
  next
    case 2
    with ws y x j i have "\<exists>a b c. s = a @ y @ b @ x @ c" by (rule tokens_in_order)
    then show ?thesis by simp
  qed
qed

lemma email_pair: "(''state.email_service'', ''state.system.email'') \<in> set replacements"
  and sms_pair: "(''state.sms_service'', ''state.system.sms'') \<in> set replacements"
  by (simp_all add: replacements_def)

lemma email_closed: "tail_edges ''state.'' ''state.system.email'' = []"
  by code_simp

lemma pass_email:
  "subst_pass replacements (a @ ''state.email_service'' @ b) =
     subst_pass replacements a @ ''state.system.email'' @ subst_pass replacements b"
  using pass_at_old [OF replacements_separated email_pair subset_refl email_pair, of a b]
    email_closed by auto

lemma pass_sms:
  "\<exists>b'. subst_pass replacements (a @ ''state.sms_service'' @ b) =
     subst_pass replacements a @ ''state.system.sms'' @ b'"
  using pass_at_old [OF replacements_separated sms_pair subset_refl sms_pair, of a b]
  by auto

lemma pass_both: "subst_pass replacements ''notify(state.email_service, state.sms_service);'' =
     ''notify(state.system.email, state.system.sms);''"
  by code_simp

text \<open>
  Claim C10. The pass maps \<open>let x = state.product_service.get();\<close> to
  \<open>let x = state.commerce.product.get();\<close>. Every content that contains both
  \<open>state.email_service\<close> and \<open>state.sms_service\<close> has the two occurrences one behind the
  other (in either order), and the one pass puts \<open>state.system.email\<close> and
  \<open>state.system.sms\<close> in their places: in front of each stands what the pass makes of the
  text in front of it.
\<close>

theorem examples_rewritten:
  "subst_pass replacements ''let x = state.product_service.get();'' =
     ''let x = state.commerce.product.get();'' \<and>
   (sublist ''state.email_service'' s \<and> sublist ''state.sms_service'' s \<longrightarrow>
      (\<exists>a b c c'. s = a @ ''state.email_service'' @ b @ ''state.sms_service'' @ c \<and>
         subst_pass replacements s =
           subst_pass replacements a @ ''state.system.email'' @
           subst_pass replacements b @ ''state.system.sms'' @ c') \<or>
      (\<exists>a b c b'. s = a @ ''state.sms_service'' @ b @ ''state.email_service'' @ c \<and>
         subst_pass replacements s =
           subst_pass replacements a @ ''state.system.sms'' @ b' @
           ''state.system.email'' @ subst_pass replacements c))"
proof (intro conjI impI)
  show "subst_pass replacements ''let x = state.product_service.get();'' =
     ''let x = state.commerce.product.get();''"
    by (rule pass_a)
next
  let ?E = "''state.email_service''" and ?S = "''state.sms_service''"
  assume both: "sublist ?E s \<and> sublist ?S s"
  have "?E \<noteq> ?S" by simp
  with replacements_separated email_pair sms_pair both
  have "(\<exists>a b c. s = a @ ?E @ b @ ?S @ c) \<or> (\<exists>a b c. s = a @ ?S @ b @ ?E @ c)"
    by (intro two_tokens_apart) blast+
  then show "(\<exists>a b c c'. s = a @ ?E @ b @ ?S @ c \<and>
         subst_pass replacements s =
           subst_pass replacements a @ ''state.system.email'' @
           subst_pass replacements b @ ''state.system.sms'' @ c') \<or>
      (\<exists>a b c b'. s = a @ ?S @ b @ ?E @ c \<and>
         subst_pass replacements s =
           subst_pass replacements a @ ''state.system.sms'' @ b' @
           ''state.system.email'' @ subst_pass replacements c)"
  proof
    assume "\<exists>a b c. s = a @ ?E @ b @ ?S @ c"
    then obtain a b c where s: "s = a @ ?E @ b @ ?S @ c" by blast
    from pass_sms [of b c] obtain c' where
      "subst_pass replacements (b @ ?S @ c) = subst_pass replacements b @ ''state.system.sms'' @ c'"
      by blast
    with pass_email [of a "b @ ?S @ c"] s
    have "subst_pass replacements s =
           subst_pass replacements a @ ''state.system.email'' @
           subst_pass replacements b @ ''state.system.sms'' @ c'"
      by simp
    with s show ?thesis by blast
  next
    assume "\<exists>a b c. s = a @ ?S @ b @ ?E @ c"
    then obtain a b c where s: "s = a @ ?S @ b @ ?E @ c" by blast
    from pass_sms [of a b] obtain b' where
      "subst_pass replacements (a @ ?S @ b) = subst_pass replacements a @ ''state.system.sms'' @ b'"
      by blast
    with pass_email [of "a @ ?S @ b" c] s
    have "subst_pass replacements s =
           subst_pass replacements a @ ''state.system.sms'' @ b' @
           ''state.system.email'' @ subst_pass replacements c"
      by simp
    with s show ?thesis by blast
  qed
qed

theorem examples_rewritten_witness:
  "sublist ''state.email_service'' ''notify(state.email_service, state.sms_service);'' \<and>
   sublist ''state.sms_service'' ''notify(state.email_service, state.sms_service);'' \<and>
   subst_pass replacements ''notify(state.email_service, state.sms_service);'' =
     ''notify(state.system.email, state.system.sms);'' \<and>
   ((\<exists>a b c c'. ''notify(state.email_service, state.sms_service);'' =
         a @ ''state.email_service'' @ b @ ''state.sms_service'' @ c \<and>
       subst_pass replacements ''notify(state.email_service, state.sms_service);'' =
         subst_pass replacements a @ ''state.system.email'' @
         subst_pass replacements b @ ''state.system.sms'' @ c') \<or>
    (\<exists>a b c b'. ''notify(state.email_service, state.sms_service);'' =
         a @ ''state.sms_service'' @ b @ ''state.email_service'' @ c \<and>
       subst_pass replacements ''notify(state.email_service, state.sms_service);'' =
         subst_pass replacements a @ ''state.system.sms'' @ b' @
         ''state.system.email'' @ subst_pass replacements c))"
proof -
  have e: "sublist ''state.email_service'' ''notify(state.email_service, state.sms_service);''"
    by code_simp
  have s: "sublist ''state.sms_service'' ''notify(state.email_service, state.sms_service);''"
    by code_simp
  note inst = examples_rewritten
    [of "''notify(state.email_service, state.sms_service);''", THEN conjunct2, THEN mp,
      OF conjI [OF e s]]
  show ?thesis
    apply (intro conjI)
       apply (rule e)
      apply (rule s)
     apply (rule pass_both)
    apply (rule inst)
    done
qed

end
